theory Spec2Isabelle
  imports Main "HOL-Library.Multiset"
begin

section \<open>Strings\<close>

text \<open>
  A Python \<open>str\<close> is a sequence of Unicode code points, so it is modelled as a list of
  natural numbers. \<open>ustr\<close> embeds an ASCII literal.
\<close>

type_synonym pystr = "nat list"

definition ustr :: "string \<Rightarrow> pystr" where
  "ustr s = map of_char s"

text \<open>
  The characters \<open>str.strip()\<close> removes when it is called without an argument: the code
  points for which \<open>str.isspace\<close> holds.
\<close>

definition py_isspace :: "nat \<Rightarrow> bool" where
  "py_isspace c \<longleftrightarrow>
     (9 \<le> c \<and> c \<le> 13) \<or> (28 \<le> c \<and> c \<le> 32) \<or> c = 133 \<or> c = 160 \<or> c = 5760 \<or>
     (8192 \<le> c \<and> c \<le> 8202) \<or> c = 8232 \<or> c = 8233 \<or> c = 8239 \<or> c = 8287 \<or> c = 12288"

definition py_strip :: "pystr \<Rightarrow> pystr" where
  "py_strip s = rev (dropWhile py_isspace (rev (dropWhile py_isspace s)))"

text \<open>\<open>sep.join(xs)\<close>: the separator goes between consecutive elements only.\<close>

fun py_join :: "pystr \<Rightarrow> pystr list \<Rightarrow> pystr" where
  "py_join sep [] = []"
| "py_join sep [x] = x"
| "py_join sep (x # y # ys) = x @ sep @ py_join sep (y # ys)"

definition newline :: pystr where
  "newline = [10]"

text \<open>
  What it means for \<open>r\<close> to be \<open>s\<close> with leading and trailing whitespace removed, said
  without reference to how \<open>py_strip\<close> computes it: only whitespace is cut off at either
  end, and what remains neither starts nor ends with whitespace.
\<close>

definition trimmed_of :: "pystr \<Rightarrow> pystr \<Rightarrow> bool" where
  "trimmed_of s r \<longleftrightarrow>
     (\<exists>a b. s = a @ r @ b \<and> list_all py_isspace a \<and> list_all py_isspace b) \<and>
     (r \<noteq> [] \<longrightarrow> \<not> py_isspace (hd r) \<and> \<not> py_isspace (last r))"

section \<open>Documents\<close>

text \<open>
  BeautifulSoup is a library outside the repository. A \<open>Tag\<close> is modelled by the two
  things the program reads from it, its attribute dictionary and its text content, and a
  parsed document by its answers to the two queries the program makes:
  \<open>find_all(attrs={"class": c})\<close> and \<open>select(selector)\<close>, both in document order.
  \<open>select_one\<close> is the first element of \<open>select\<close>, or \<open>None\<close>.
\<close>

record tag =
  attrs :: "string \<rightharpoonup> pystr"
  tag_text :: pystr

record soup =
  find_all_class :: "string \<Rightarrow> tag list"
  css_select :: "string \<Rightarrow> tag list"

definition select_one :: "soup \<Rightarrow> string \<Rightarrow> tag option" where
  "select_one doc selector =
     (case css_select doc selector of [] \<Rightarrow> None | t # _ \<Rightarrow> Some t)"

section \<open>MenuItem and the field extraction\<close>

record MenuItem =
  name :: pystr
  description :: pystr
  calories :: pystr
  fats :: pystr
  carbs :: pystr
  proteins :: pystr
  unsaturated_fats :: pystr
  sugar :: pystr
  salt :: pystr
  portion :: pystr

definition take_hidden :: "soup \<Rightarrow> string \<Rightarrow> pystr" where
  "take_hidden doc selector =
     (let selected = css_select doc selector
      in py_join newline (map (\<lambda>t. py_strip (tag_text t)) selected))"

text \<open>
  \<open>if selected:\<close> tests a \<open>Tag\<close> or \<open>None\<close>; a \<open>Tag\<close> is always true, so the test is
  exactly the test for \<open>None\<close>.
\<close>

definition take_string_opt :: "soup \<Rightarrow> string \<Rightarrow> pystr" where
  "take_string_opt doc selector =
     (case select_one doc selector of
        Some selected \<Rightarrow> py_strip (tag_text selected)
      | None \<Rightarrow> [])"

text \<open>The ten selector literals of \<open>_parse_item\<close>, adjacent string literals concatenated.\<close>

definition sel_name :: string where
  "sel_name = ''span.cmp-product-details-main__heading-title''"

definition sel_description :: string where
  "sel_description = ''div.cmp-product-details-main__description''"

definition sel_calories :: string where
  "sel_calories = ''li.cmp-nutrition-summary__heading-primary-item:nth-child(1) span[aria-hidden]:not([class])''"

definition sel_fats :: string where
  "sel_fats = ''li.cmp-nutrition-summary__heading-primary-item:nth-child(2) span[aria-hidden]:not([class])''"

definition sel_carbs :: string where
  "sel_carbs = ''li.cmp-nutrition-summary__heading-primary-item:nth-child(3) span[aria-hidden]:not([class])''"

definition sel_proteins :: string where
  "sel_proteins = ''li.cmp-nutrition-summary__heading-primary-item:nth-child(4) span[aria-hidden]:not([class])''"

definition sel_unsaturated_fats :: string where
  "sel_unsaturated_fats = ''div.cmp-nutrition-summary__details-column-view-desktop li.label-item:nth-child(1) > span:nth-child(2) span[aria-hidden]:not([class])''"

definition sel_sugar :: string where
  "sel_sugar = ''div.cmp-nutrition-summary__details-column-view-desktop li.label-item:nth-child(2) > span:nth-child(2) span[aria-hidden]:not([class])''"

definition sel_salt :: string where
  "sel_salt = ''div.cmp-nutrition-summary__details-column-view-desktop li.label-item:nth-child(3) > span:nth-child(2) span[aria-hidden]:not([class])''"

definition sel_portion :: string where
  "sel_portion = ''div.cmp-nutrition-summary__details-column-view-desktop li.label-item:nth-child(4) > span:nth-child(2) span[aria-hidden]:not([class])''"

text \<open>
  The synchronous middle of \<open>_parse_item\<close>: from the parsed page to the \<open>MenuItem\<close>.
  \<open>item_name\<close> is computed first and reused for the \<open>name\<close> field.
\<close>

definition extract_item :: "soup \<Rightarrow> MenuItem" where
  "extract_item doc =
     (let item_name = take_string_opt doc sel_name
      in \<lparr> name = item_name,
           description = take_string_opt doc sel_description,
           calories = take_hidden doc sel_calories,
           fats = take_hidden doc sel_fats,
           carbs = take_hidden doc sel_carbs,
           proteins = take_hidden doc sel_proteins,
           unsaturated_fats = take_hidden doc sel_unsaturated_fats,
           sugar = take_hidden doc sel_sugar,
           salt = take_hidden doc sel_salt,
           portion = take_hidden doc sel_portion \<rparr>)"

section \<open>Errors and the outside world\<close>

datatype error =
    KeyError string
  | ValueError string
  | ParserRejectedMarkup
  | RequestError pystr
  | PlaywrightError pystr

text \<open>
  What the program reads from its collaborators, each with the exception it can raise.
  \<open>session_get\<close> is the HTTP client's \<open>get\<close>: the response body, or the exception of
  the request. \<open>html_parser\<close> is \<open>BeautifulSoup(_, 'html.parser')\<close>, which raises
  \<open>ParserRejectedMarkup\<close> on markup the parser gives up on. \<open>urljoin\<close> is
  \<open>urllib.parse.urljoin\<close>, which raises \<open>ValueError\<close> on a reference it cannot split
  (\<open>'//['\<close>, an unclosed IPv6 host, is one). \<open>rendered url\<close> is what \<open>page.content()\<close>
  returns on a page that was navigated to \<open>url\<close>.
\<close>

record world =
  session_get :: "pystr \<Rightarrow> error + pystr"
  html_parser :: "pystr \<Rightarrow> error + soup"
  urljoin :: "pystr \<Rightarrow> pystr \<Rightarrow> error + pystr"
  rendered :: "pystr \<Rightarrow> pystr"

definition BASE_URL :: pystr where
  "BASE_URL = ustr ''https://www.mcdonalds.com''"

definition menu_path :: pystr where
  "menu_path = ustr ''/ua/uk-ua/eat/fullmenu.html''"

definition link_class :: string where
  "link_class = ''cmp-category__item-link''"

section \<open>The coroutines of \<open>_parse_item\<close> on the event loop\<close>

text \<open>
  asyncio runs one task at a time and switches only where a task suspends. The places
  where \<open>_parse_item\<close> can suspend are the program counters below: waiting inside
  \<open>semaphore.acquire()\<close>, and the four awaited browser calls. \<open>Created\<close> is a coroutine
  object that \<open>gather\<close> has not started yet; \<open>Returned\<close> and \<open>Raised\<close> are the two ways
  the coroutine ends. A frame keeps the argument \<open>item_link\<close> and the local \<open>page\<close>.
\<close>

datatype pc =
    Created
  | AcquireWait
  | AwaitNewPage
  | AwaitGoto
  | AwaitContent
  | AwaitClose MenuItem
  | Returned MenuItem
  | Raised error

record coro =
  item_link :: pystr
  page :: "nat option"
  at :: pc

text \<open>
  The state of one \<open>fetch_menu\<close> call: the semaphore (its counter and its FIFO queue of
  waiting tasks), the coroutines in the order \<open>gather\<close> received them, the browser
  context (pages are numbered in the order of creation; \<open>open_pages\<close> are those not yet
  closed; \<open>gotos\<close> logs the URL of every \<open>page.goto\<close> call), what \<open>print\<close> wrote, and the
  exception that \<open>gather\<close> has passed on to its caller, if any.
\<close>

record loop =
  sem_value :: nat
  sem_waiters :: "nat list"
  coros :: "coro list"
  pages_created :: nat
  open_pages :: "nat set"
  gotos :: "pystr list"
  stdout :: "pystr list"
  gather_exc :: "error option"

text \<open>
  The environment resolves or rejects the awaitable a task is suspended on; a schedule
  is a list of such events, in the order in which the event loop sees them.
\<close>

datatype event = Resolve nat | Reject nat error

fun holding :: "pc \<Rightarrow> bool" where
  "holding AwaitNewPage = True"
| "holding AwaitGoto = True"
| "holding AwaitContent = True"
| "holding (AwaitClose _) = True"
| "holding _ = False"

fun returned_item :: "pc \<Rightarrow> MenuItem option" where
  "returned_item (Returned item) = Some item"
| "returned_item _ = None"

definition set_pc :: "nat \<Rightarrow> pc \<Rightarrow> loop \<Rightarrow> loop" where
  "set_pc i p st = st\<lparr> coros := (coros st)[i := (coros st ! i)\<lparr> at := p \<rparr>] \<rparr>"

text \<open>
  \<open>Semaphore.acquire\<close>, called by task \<open>i\<close> on entering \<open>async with semaphore\<close>: it
  returns at once when the counter is positive and nobody is queued, and the task goes
  on to call \<open>context.new_page()\<close>; otherwise the task queues up and suspends.
\<close>

definition acquire :: "nat \<Rightarrow> loop \<Rightarrow> loop" where
  "acquire i st =
     (if 0 < sem_value st \<and> sem_waiters st = []
      then set_pc i AwaitNewPage (st\<lparr> sem_value := sem_value st - 1 \<rparr>)
      else set_pc i AcquireWait (st\<lparr> sem_waiters := sem_waiters st @ [i] \<rparr>))"

text \<open>
  \<open>Semaphore.release\<close>, called when a task leaves \<open>async with semaphore\<close> by return or
  by exception: the counter goes up by one and the first queued task, if there is one,
  takes the slot at once (the counter goes down again on its behalf) and is woken up.
  The woken task does nothing but call \<open>context.new_page()\<close> when it runs next, so it is
  put at \<open>AwaitNewPage\<close> directly.
\<close>

definition release :: "loop \<Rightarrow> loop" where
  "release st =
     (case sem_waiters st of
        [] \<Rightarrow> st\<lparr> sem_value := sem_value st + 1 \<rparr>
      | j # ws \<Rightarrow> set_pc j AwaitNewPage (st\<lparr> sem_waiters := ws \<rparr>))"

text \<open>
  An exception \<open>e\<close> surfaces in task \<open>i\<close> inside the \<open>async with\<close> block. Nothing in
  \<open>_parse_item\<close> catches it: the exception leaves the block (release) and ends the task.
  \<open>gather\<close> passes the first exception of any of its tasks on to its caller.
\<close>

definition raise_in :: "nat \<Rightarrow> error \<Rightarrow> loop \<Rightarrow> loop" where
  "raise_in i e st =
     (let st' = release (set_pc i (Raised e) st)
      in st'\<lparr> gather_exc := (case gather_exc st' of None \<Rightarrow> Some e | Some e0 \<Rightarrow> Some e0) \<rparr>)"

text \<open>
  What lines 80 to 106 of \<open>_parse_item\<close> make of the page of \<open>url\<close>: the exception of
  the parser, or the \<open>MenuItem\<close> extracted from the parsed document.
\<close>

definition item_of :: "world \<Rightarrow> pystr \<Rightarrow> error + MenuItem" where
  "item_of w url =
     (case html_parser w (rendered w url) of
        Inl e \<Rightarrow> Inl e
      | Inr doc \<Rightarrow> Inr (extract_item doc))"

definition parses :: "world \<Rightarrow> pystr \<Rightarrow> bool" where
  "parses w url \<longleftrightarrow> (case html_parser w (rendered w url) of Inl _ \<Rightarrow> False | Inr _ \<Rightarrow> True)"

text \<open>
  Task \<open>i\<close> resumes because its awaitable succeeded, and runs to its next suspension
  point or to its end:
  \<^item> \<open>new_page()\<close> gives a fresh page; the task stores it and calls \<open>page.goto(item_link)\<close>;
  \<^item> after \<open>goto\<close> it calls \<open>page.content()\<close>;
  \<^item> the content goes to the parser; if the parser raises, so does the task; otherwise
    the \<open>MenuItem\<close> is built from the parsed document and the task calls \<open>page.close()\<close>;
  \<^item> after \<open>close\<close> the page is gone, the task prints, leaves the \<open>async with\<close> (release)
    and returns the item.
\<close>

definition resolve :: "world \<Rightarrow> nat \<Rightarrow> loop \<Rightarrow> loop" where
  "resolve w i st =
     (let c = coros st ! i
      in case at c of
           AwaitNewPage \<Rightarrow>
             (let p = pages_created st
              in st\<lparr> pages_created := p + 1,
                     open_pages := insert p (open_pages st),
                     gotos := gotos st @ [item_link c],
                     coros := (coros st)[i := c\<lparr> page := Some p, at := AwaitGoto \<rparr>] \<rparr>)
         | AwaitGoto \<Rightarrow> set_pc i AwaitContent st
         | AwaitContent \<Rightarrow>
             (case html_parser w (rendered w (item_link c)) of
                Inl e \<Rightarrow> raise_in i e st
              | Inr doc \<Rightarrow> set_pc i (AwaitClose (extract_item doc)) st)
         | AwaitClose item \<Rightarrow>
             release (set_pc i (Returned item)
               (st\<lparr> open_pages := open_pages st - set_option (page c),
                     stdout := stdout st @ [ustr ''Item parsed - '' @ [34] @ name item @ [34]] \<rparr>))
         | _ \<Rightarrow> st)"

text \<open>Task \<open>i\<close> resumes because its awaitable raised \<open>e\<close>.\<close>

definition reject :: "nat \<Rightarrow> error \<Rightarrow> loop \<Rightarrow> loop" where
  "reject i e st = (if holding (at (coros st ! i)) then raise_in i e st else st)"

text \<open>
  What \<open>await asyncio.gather(...)\<close> gives \<open>fetch_menu\<close>: the exception if a task raised,
  the list of the tasks' results in the order of the tasks once all have returned, and
  nothing yet (\<open>None\<close>) otherwise.
\<close>

definition gather_result :: "loop \<Rightarrow> (error + MenuItem list) option" where
  "gather_result st =
     (case gather_exc st of
        Some e \<Rightarrow> Some (Inl e)
      | None \<Rightarrow> map_option Inr (those (map (\<lambda>c. returned_item (at c)) (coros st))))"

text \<open>One event. Once \<open>gather\<close> has handed over its outcome, \<open>fetch_menu\<close> is over.\<close>

definition step :: "world \<Rightarrow> loop \<Rightarrow> event \<Rightarrow> loop" where
  "step w st ev =
     (if gather_result st \<noteq> None then st
      else case ev of
             Resolve i \<Rightarrow> if i < length (coros st) then resolve w i st else st
           | Reject i e \<Rightarrow> if i < length (coros st) then reject i e st else st)"

text \<open>
  \<open>asyncio.Semaphore(K)\<close> and the coroutine objects of the list comprehension, then
  \<open>gather\<close>: it starts the tasks in the order of the list, and each runs up to its first
  suspension point before the next one starts.
\<close>

definition fresh_loop :: "nat \<Rightarrow> pystr list \<Rightarrow> loop" where
  "fresh_loop K urls =
     \<lparr> sem_value = K, sem_waiters = [],
       coros = map (\<lambda>u. \<lparr> item_link = u, page = None, at = Created \<rparr>) urls,
       pages_created = 0, open_pages = {}, gotos = [], stdout = [], gather_exc = None \<rparr>"

definition start :: "nat \<Rightarrow> pystr list \<Rightarrow> loop" where
  "start K urls = fold acquire [0..<length urls] (fresh_loop K urls)"

definition run_bounded :: "world \<Rightarrow> nat \<Rightarrow> pystr list \<Rightarrow> event list \<Rightarrow> loop" where
  "run_bounded w K urls evs = foldl (step w) (start K urls) evs"

text \<open>
  The argument \<open>urllib.parse.urljoin(self.BASE_URL, link_item.attrs['href'])\<close> of one
  element of the list comprehension: \<open>link_item.attrs['href']\<close> raises \<open>KeyError\<close> on a
  tag without that attribute, then \<open>urljoin\<close> may raise on the value.
\<close>

definition link_url :: "world \<Rightarrow> tag \<Rightarrow> error + pystr" where
  "link_url w link_item =
     (case attrs link_item ''href'' of
        None \<Rightarrow> Inl (KeyError ''href'')
      | Some href \<Rightarrow> urljoin w BASE_URL href)"

text \<open>
  The list comprehension of \<open>fetch_menu\<close>, link by link in listing order; the first
  exception ends it.
\<close>

fun item_links :: "world \<Rightarrow> tag list \<Rightarrow> error + pystr list" where
  "item_links w [] = Inr []"
| "item_links w (link_item # rest) =
     (case link_url w link_item of
        Inl e \<Rightarrow> Inl e
      | Inr url \<Rightarrow>
          (case item_links w rest of
             Inl e \<Rightarrow> Inl e
           | Inr urls \<Rightarrow> Inr (url # urls)))"

text \<open>
  The part of \<open>fetch_menu\<close> before the semaphore is created: the listing URL, the
  request, the parse of the response, and the tags with the category-item-link class.
\<close>

definition listing_links :: "world \<Rightarrow> error + tag list" where
  "listing_links w =
     (case urljoin w BASE_URL menu_path of
        Inl e \<Rightarrow> Inl e
      | Inr url \<Rightarrow>
          (case session_get w url of
             Inl e \<Rightarrow> Inl e
           | Inr content \<Rightarrow>
               (case html_parser w content of
                  Inl e \<Rightarrow> Inl e
                | Inr doc \<Rightarrow> Inr (find_all_class doc link_class))))"

text \<open>
  \<open>fetch_menu\<close> with \<open>max_sim_pages = K\<close> under a schedule: its outcome so far (\<open>None\<close>
  while it is still suspended in \<open>gather\<close>) and the state of the loop and the browser.
  \<open>asyncio.Semaphore\<close> raises \<open>ValueError\<close> for a negative value.
\<close>

definition fetch_menu :: "world \<Rightarrow> int \<Rightarrow> event list \<Rightarrow> (error + MenuItem list) option \<times> loop" where
  "fetch_menu w K evs =
     (case listing_links w of
        Inl e \<Rightarrow> (Some (Inl e), fresh_loop 0 [])
      | Inr links \<Rightarrow>
          if K < 0
          then (Some (Inl (ValueError ''Semaphore initial value must be >= 0'')), fresh_loop 0 [])
          else case item_links w links of
                 Inl e \<Rightarrow> (Some (Inl e), fresh_loop 0 [])
               | Inr urls \<Rightarrow>
                   (let st = run_bounded w (nat K) urls evs
                    in (gather_result st, st)))"

section \<open>Invariants of the event loop\<close>

text \<open>
  Results. A task carries a \<open>MenuItem\<close> from the moment it has built it; the item is
  always the one extracted from the page of the task's own \<open>item_link\<close>, and the
  links of the tasks are the input URLs, in order.
\<close>

fun carried :: "pc \<Rightarrow> MenuItem option" where
  "carried (AwaitClose item) = Some item"
| "carried (Returned item) = Some item"
| "carried _ = None"

definition coro_ok :: "world \<Rightarrow> coro \<Rightarrow> bool" where
  "coro_ok w c \<longleftrightarrow>
     (case carried (at c) of None \<Rightarrow> True | Some item \<Rightarrow> item_of w (item_link c) = Inr item)"

definition cs_ok :: "world \<Rightarrow> pystr list \<Rightarrow> coro list \<Rightarrow> bool" where
  "cs_ok w urls cs \<longleftrightarrow> map item_link cs = urls \<and> list_all (coro_ok w) cs"

definition data_inv :: "world \<Rightarrow> pystr list \<Rightarrow> loop \<Rightarrow> bool" where
  "data_inv w urls st \<longleftrightarrow> cs_ok w urls (coros st)"

text \<open>
  The semaphore. The counter plus the number of tasks inside the \<open>async with\<close> block is
  the initial value; the queue holds exactly the tasks suspended in \<open>acquire\<close>, each
  once; and tasks queue only while the counter is zero.
\<close>

definition sem_ok :: "nat \<Rightarrow> nat \<Rightarrow> nat list \<Rightarrow> pc list \<Rightarrow> bool" where
  "sem_ok K v ws ps \<longleftrightarrow>
     v + length (filter holding ps) = K \<and> distinct ws \<and>
     (\<forall>j. j \<in> set ws \<longleftrightarrow> j < length ps \<and> ps ! j = AcquireWait) \<and>
     (ws \<noteq> [] \<longrightarrow> v = 0)"

definition sem_inv :: "nat \<Rightarrow> loop \<Rightarrow> bool" where
  "sem_inv K st \<longleftrightarrow> sem_ok K (sem_value st) (sem_waiters st) (map at (coros st))"

text \<open>
  Progress. \<open>rank\<close> counts the suspension points a task still has before it; \<open>work\<close>
  adds it up over all tasks.
\<close>

fun started :: "pc \<Rightarrow> bool" where
  "started Created = False"
| "started _ = True"

fun failed :: "pc \<Rightarrow> bool" where
  "failed (Raised _) = True"
| "failed _ = False"

fun rank :: "pc \<Rightarrow> nat" where
  "rank Created = 6"
| "rank AcquireWait = 5"
| "rank AwaitNewPage = 4"
| "rank AwaitGoto = 3"
| "rank AwaitContent = 2"
| "rank (AwaitClose _) = 1"
| "rank (Returned _) = 0"
| "rank (Raised _) = 0"

definition work :: "loop \<Rightarrow> nat" where
  "work st = sum_list (map rank (map at (coros st)))"

definition pcs_all :: "(pc \<Rightarrow> bool) \<Rightarrow> loop \<Rightarrow> bool" where
  "pcs_all Q st \<longleftrightarrow> list_all Q (map at (coros st))"

definition started_upto :: "nat \<Rightarrow> loop \<Rightarrow> bool" where
  "started_upto n st \<longleftrightarrow>
     (\<forall>j < length (coros st).
        (j < n \<longrightarrow> at (coros st ! j) \<in> {AwaitNewPage, AcquireWait}) \<and>
        (n \<le> j \<longrightarrow> at (coros st ! j) = Created))"

text \<open>
  Pages. A task has a page exactly from the moment \<open>new_page()\<close> returned; page
  numbers are below the number of pages created; the page of a task that has returned is
  no longer open; and the log of \<open>goto\<close> calls holds the links of the tasks that have a
  page, each once per task.
\<close>

fun has_page :: "pc \<Rightarrow> bool" where
  "has_page AwaitGoto = True"
| "has_page AwaitContent = True"
| "has_page (AwaitClose _) = True"
| "has_page (Returned _) = True"
| "has_page _ = False"

fun before_page :: "pc \<Rightarrow> bool" where
  "before_page Created = True"
| "before_page AcquireWait = True"
| "before_page AwaitNewPage = True"
| "before_page _ = False"

definition page_ok :: "nat \<Rightarrow> nat set \<Rightarrow> coro \<Rightarrow> bool" where
  "page_ok n S c \<longleftrightarrow>
     (has_page (at c) \<longrightarrow> page c \<noteq> None) \<and>
     (before_page (at c) \<longrightarrow> page c = None) \<and>
     (\<forall>p. page c = Some p \<longrightarrow> p < n \<and> (returned_item (at c) \<noteq> None \<longrightarrow> p \<notin> S))"

definition linked :: "coro list \<Rightarrow> pystr list" where
  "linked cs = map item_link (filter (\<lambda>c. page c \<noteq> None) cs)"

definition page_inv :: "loop \<Rightarrow> bool" where
  "page_inv st \<longleftrightarrow>
     list_all (page_ok (pages_created st) (open_pages st)) (coros st) \<and>
     mset (gotos st) = mset (linked (coros st))"

section \<open>A world for concrete runs\<close>

text \<open>
  The listing page has the given link tags and every item page has a heading whose text
  is the page's own URL. \<open>urljoin\<close> appends the reference to the base, except that it
  raises on \<open>'//['\<close>, as the library does.
\<close>

definition echo_doc :: "tag list \<Rightarrow> pystr \<Rightarrow> soup" where
  "echo_doc links content =
     \<lparr> find_all_class = (\<lambda>c. if c = link_class then links else []),
       css_select = (\<lambda>s. if s = sel_name then [\<lparr> attrs = Map.empty, tag_text = content \<rparr>] else []) \<rparr>"

definition listing_world :: "tag list \<Rightarrow> world" where
  "listing_world links =
     \<lparr> session_get = (\<lambda>url. Inr url),
       html_parser = (\<lambda>content. Inr (echo_doc links content)),
       urljoin = (\<lambda>base url.
          if url = ustr ''//['' then Inl (ValueError ''Invalid IPv6 URL'') else Inr (base @ url)),
       rendered = (\<lambda>url. url) \<rparr>"

definition anchor :: "string \<Rightarrow> tag" where
  "anchor href = \<lparr> attrs = [''href'' \<mapsto> ustr href], tag_text = [] \<rparr>"

section \<open>Properties of the string operations\<close>

lemma rev_dropWhile_takeWhile:
  "rev (dropWhile P (rev xs)) @ rev (takeWhile P (rev xs)) = xs"
  by (metis rev_append rev_rev_ident takeWhile_dropWhile_id)

lemma py_strip_middle:
  "dropWhile py_isspace s =
     py_strip s @ rev (takeWhile py_isspace (rev (dropWhile py_isspace s)))"
  unfolding py_strip_def by (rule rev_dropWhile_takeWhile [symmetric])

lemma py_strip_decompose:
  "\<exists>a b. s = a @ py_strip s @ b \<and> list_all py_isspace a \<and> list_all py_isspace b"
proof -
  let ?a = "takeWhile py_isspace s"
  let ?b = "rev (takeWhile py_isspace (rev (dropWhile py_isspace s)))"
  have "s = ?a @ dropWhile py_isspace s"
    by simp
  then have "s = ?a @ py_strip s @ ?b"
    using py_strip_middle [of s] by simp
  moreover have "list_all py_isspace ?a"
    unfolding list_all_iff by (auto dest: set_takeWhileD)
  moreover have "list_all py_isspace ?b"
    unfolding list_all_iff by (auto dest: set_takeWhileD)
  ultimately show ?thesis
    by blast
qed

lemma py_strip_last: "py_strip s \<noteq> [] \<Longrightarrow> \<not> py_isspace (last (py_strip s))"
proof -
  assume ne: "py_strip s \<noteq> []"
  let ?d = "dropWhile py_isspace (rev (dropWhile py_isspace s))"
  from ne have d: "?d \<noteq> []"
    by (simp add: py_strip_def)
  then have "\<not> py_isspace (hd ?d)"
    by (rule hd_dropWhile)
  moreover from d have "last (rev ?d) = hd ?d"
    by (simp add: last_rev)
  ultimately show ?thesis
    by (simp add: py_strip_def)
qed

lemma py_strip_hd: "py_strip s \<noteq> [] \<Longrightarrow> \<not> py_isspace (hd (py_strip s))"
proof -
  assume ne: "py_strip s \<noteq> []"
  let ?m = "dropWhile py_isspace s"
  have m_ne: "?m \<noteq> []"
  proof
    assume e: "?m = []"
    have "py_strip s = []"
      unfolding py_strip_def e by simp
    with ne show False ..
  qed
  then have hm: "\<not> py_isspace (hd ?m)"
    by (rule hd_dropWhile)
  from ne have "hd ?m = hd (py_strip s)"
    using py_strip_middle [of s] by (metis hd_append2)
  with hm show ?thesis
    by simp
qed

lemma py_strip_trimmed: "trimmed_of s (py_strip s)"
  unfolding trimmed_of_def
  using py_strip_decompose [of s] py_strip_hd [of s] py_strip_last [of s] by blast

lemma dropWhile_all: "list_all P xs \<Longrightarrow> dropWhile P (xs @ ys) = dropWhile P ys"
  by (induction xs) auto

lemma trimmed_of_unique: "trimmed_of s r \<Longrightarrow> r = py_strip s"
proof -
  assume t: "trimmed_of s r"
  then obtain a b where s: "s = a @ r @ b" and a: "list_all py_isspace a"
    and b: "list_all py_isspace b"
    unfolding trimmed_of_def by blast
  show ?thesis
  proof (cases "r = []")
    case True
    with s a b have "list_all py_isspace s"
      by simp
    then have d: "dropWhile py_isspace s = []"
      by (metis dropWhile_eq_Nil_conv list_all_iff)
    from True show ?thesis
      unfolding py_strip_def d by simp
  next
    case False
    with t have h: "\<not> py_isspace (hd r)" and l: "\<not> py_isspace (last r)"
      unfolding trimmed_of_def by blast+
    from False h have "dropWhile py_isspace (r @ b) = r @ b"
      by (cases r) auto
    with s a have d1: "dropWhile py_isspace s = r @ b"
      by (simp add: dropWhile_all)
    from b have rb: "list_all py_isspace (rev b)"
      by (simp add: list_all_iff)
    from False l have "dropWhile py_isspace (rev r) = rev r"
      by (cases r rule: rev_cases) auto
    with rb have "dropWhile py_isspace (rev b @ rev r) = rev r"
      by (simp add: dropWhile_all)
    with d1 show ?thesis
      by (simp add: py_strip_def)
  qed
qed

lemma py_join_cons: "py_join sep (x # xs) = x @ concat (map (\<lambda>y. sep @ y) xs)"
  by (induction xs arbitrary: x) auto

section \<open>The field extractor\<close>



lemma take_hidden_none: "css_select doc selector = [] \<Longrightarrow> take_hidden doc selector = []"
  by (simp add: take_hidden_def)



lemma take_string_opt_none: "css_select doc selector = [] \<Longrightarrow> take_string_opt doc selector = []"
  by (simp add: take_string_opt_def select_one_def)

lemma take_string_opt_first:
  "css_select doc selector = t # ts \<Longrightarrow>
     take_string_opt doc selector = py_strip (tag_text t) \<and>
     trimmed_of (tag_text t) (take_string_opt doc selector)"
  by (simp add: take_string_opt_def select_one_def py_strip_trimmed)

text \<open>
  C6. The \<open>name\<close> and \<open>description\<close> fields come from \<open>_take_string_opt\<close>: when the
  selector matches at least one node, the field is the text of the first match with leading
  and trailing whitespace stripped; when it matches none, the field is the empty string.
\<close>

theorem single_fields_first_match_trimmed:
  "\<forall>(field, selector) \<in> set [(name, sel_name), (description, sel_description)].
     (css_select doc selector = [] \<longrightarrow> field (extract_item doc) = []) \<and>
     (\<forall>t ts. css_select doc selector = t # ts \<longrightarrow>
        field (extract_item doc) = py_strip (tag_text t) \<and>
        trimmed_of (tag_text t) (field (extract_item doc)))"
  using take_string_opt_none [of doc] take_string_opt_first [of doc]
  by (auto simp: extract_item_def)

theorem single_fields_first_match_trimmed_witness:
  "name (extract_item \<lparr> find_all_class = (\<lambda>c. []),
       css_select = (\<lambda>s. if s = sel_name
          then [\<lparr> attrs = Map.empty, tag_text = ustr ''  Big Mac \<newline>'' \<rparr>,
                \<lparr> attrs = Map.empty, tag_text = ustr ''other'' \<rparr>]
          else []) \<rparr>) = ustr ''Big Mac'' \<and>
   description (extract_item \<lparr> find_all_class = (\<lambda>c. []),
       css_select = (\<lambda>s. if s = sel_name
          then [\<lparr> attrs = Map.empty, tag_text = ustr ''  Big Mac \<newline>'' \<rparr>,
                \<lparr> attrs = Map.empty, tag_text = ustr ''other'' \<rparr>]
          else []) \<rparr>) = []"
  using single_fields_first_match_trimmed [of "\<lparr> find_all_class = (\<lambda>c. []),
       css_select = (\<lambda>s. if s = sel_name
          then [\<lparr> attrs = Map.empty, tag_text = ustr ''  Big Mac \<newline>'' \<rparr>,
                \<lparr> attrs = Map.empty, tag_text = ustr ''other'' \<rparr>]
          else []) \<rparr>"]
  by (simp add: sel_name_def sel_description_def ustr_def py_strip_def py_isspace_def)

section \<open>Results stay attached to their tasks\<close>

lemma list_all_update:
  "list_all Q xs \<Longrightarrow> (i < length xs \<Longrightarrow> Q y) \<Longrightarrow> list_all Q (xs[i := y])"
  by (cases "i < length xs") (auto simp: list_all_length nth_list_update)

lemma map_update_same:
  "(i < length xs \<Longrightarrow> f y = f (xs ! i)) \<Longrightarrow> map f (xs[i := y]) = map f xs"
proof (cases "i < length xs")
  case True
  then show "(i < length xs \<Longrightarrow> f y = f (xs ! i)) \<Longrightarrow> ?thesis"
    by (simp add: map_update list_update_same_conv)
next
  case False
  then show ?thesis
    by (simp add: list_update_beyond)
qed

lemma cs_ok_update:
  "cs_ok w urls cs \<Longrightarrow>
   (i < length cs \<Longrightarrow> item_link c = item_link (cs ! i) \<and> coro_ok w c) \<Longrightarrow>
   cs_ok w urls (cs[i := c])"
  unfolding cs_ok_def by (simp add: list_all_update map_update_same)

lemma cs_ok_nth: "cs_ok w urls cs \<Longrightarrow> i < length cs \<Longrightarrow> coro_ok w (cs ! i)"
  by (simp add: cs_ok_def list_all_length)

lemma coro_ok_fresh_pc: "carried p = None \<Longrightarrow> coro_ok w (c\<lparr> at := p \<rparr>)"
  by (simp add: coro_ok_def)

lemma data_inv_set_pc:
  "data_inv w urls st \<Longrightarrow> carried p = None \<Longrightarrow> data_inv w urls (set_pc i p st)"
  unfolding data_inv_def set_pc_def
  by (simp add: cs_ok_update coro_ok_fresh_pc)

lemma data_inv_release: "data_inv w urls st \<Longrightarrow> data_inv w urls (release st)"
proof (cases "sem_waiters st")
  case Nil
  then show "data_inv w urls st \<Longrightarrow> ?thesis"
    by (simp add: release_def data_inv_def)
next
  case (Cons j ws)
  assume "data_inv w urls st"
  then have "data_inv w urls (st\<lparr> sem_waiters := ws \<rparr>)"
    by (simp add: data_inv_def)
  then have "data_inv w urls (set_pc j AwaitNewPage (st\<lparr> sem_waiters := ws \<rparr>))"
    by (rule data_inv_set_pc) simp
  with Cons show ?thesis
    by (simp add: release_def)
qed

lemma data_inv_acquire: "data_inv w urls st \<Longrightarrow> data_inv w urls (acquire i st)"
proof -
  assume a: "data_inv w urls st"
  then have 1: "data_inv w urls (st\<lparr> sem_value := sem_value st - 1 \<rparr>)"
    and 2: "data_inv w urls (st\<lparr> sem_waiters := sem_waiters st @ [i] \<rparr>)"
    by (simp_all add: data_inv_def)
  show ?thesis
    unfolding acquire_def
    using data_inv_set_pc [OF 1, of AwaitNewPage i] data_inv_set_pc [OF 2, of AcquireWait i]
    by simp
qed

lemma data_inv_raise_in:
  assumes inv: "data_inv w urls st"
  shows "data_inv w urls (raise_in i e st)"
proof -
  have "data_inv w urls (release (set_pc i (Raised e) st))"
    by (intro data_inv_release data_inv_set_pc inv) simp
  then show ?thesis
    by (simp add: raise_in_def Let_def data_inv_def)
qed

lemma data_inv_resolve:
  assumes inv: "data_inv w urls st" and i: "i < length (coros st)"
  shows "data_inv w urls (resolve w i st)"
proof (cases "at (coros st ! i)")
  case AwaitNewPage
  have "cs_ok w urls ((coros st)[i := (coros st ! i)\<lparr> page := Some (pages_created st), at := AwaitGoto \<rparr>])"
    using inv unfolding data_inv_def
    by (rule cs_ok_update) (simp add: coro_ok_def)
  with AwaitNewPage show ?thesis
    by (simp add: resolve_def Let_def data_inv_def)
next
  case AwaitGoto
  with data_inv_set_pc [OF inv, of AwaitContent i] show ?thesis
    by (simp add: resolve_def Let_def)
next
  case AwaitContent
  show ?thesis
  proof (cases "html_parser w (rendered w (item_link (coros st ! i)))")
    case (Inl e)
    with AwaitContent data_inv_raise_in [OF inv, of i e] show ?thesis
      by (simp add: resolve_def Let_def)
  next
    case (Inr doc)
    have "cs_ok w urls ((coros st)[i := (coros st ! i)\<lparr> at := AwaitClose (extract_item doc) \<rparr>])"
      using inv unfolding data_inv_def
      by (rule cs_ok_update) (simp add: coro_ok_def item_of_def Inr)
    with AwaitContent Inr show ?thesis
      by (simp add: resolve_def Let_def data_inv_def set_pc_def)
  qed
next
  case (AwaitClose item)
  from inv i have "coro_ok w (coros st ! i)"
    unfolding data_inv_def by (rule cs_ok_nth)
  with AwaitClose have item: "item_of w (item_link (coros st ! i)) = Inr item"
    by (simp add: coro_ok_def)
  let ?st = "st\<lparr> open_pages := open_pages st - set_option (page (coros st ! i)),
                  stdout := stdout st @ [ustr ''Item parsed - '' @ [34] @ name item @ [34]] \<rparr>"
  have "cs_ok w urls ((coros st)[i := (coros st ! i)\<lparr> at := Returned item \<rparr>])"
    using inv unfolding data_inv_def
    by (rule cs_ok_update) (simp add: coro_ok_def item)
  then have "data_inv w urls (set_pc i (Returned item) ?st)"
    by (simp add: data_inv_def set_pc_def)
  then have "data_inv w urls (release (set_pc i (Returned item) ?st))"
    by (rule data_inv_release)
  with AwaitClose show ?thesis
    by (simp add: resolve_def Let_def)
qed (simp_all add: resolve_def Let_def inv)

lemma data_inv_reject: "data_inv w urls st \<Longrightarrow> data_inv w urls (reject i e st)"
  by (simp add: reject_def data_inv_raise_in)

lemma data_inv_step: "data_inv w urls st \<Longrightarrow> data_inv w urls (step w st ev)"
  unfolding step_def
  by (cases ev) (simp_all add: data_inv_resolve data_inv_reject)

lemma data_inv_foldl:
  "data_inv w urls st \<Longrightarrow> data_inv w urls (foldl (step w) st evs)"
  by (induction evs arbitrary: st) (simp_all add: data_inv_step)

lemma data_inv_fold_acquire:
  "data_inv w urls st \<Longrightarrow> data_inv w urls (fold acquire ks st)"
  by (induction ks arbitrary: st) (simp_all add: data_inv_acquire)

lemma data_inv_fresh: "data_inv w urls (fresh_loop K urls)"
  by (simp add: data_inv_def cs_ok_def fresh_loop_def comp_def list_all_iff coro_ok_def)

lemma data_inv_run: "data_inv w urls (run_bounded w K urls evs)"
  unfolding run_bounded_def start_def
  by (intro data_inv_foldl data_inv_fold_acquire data_inv_fresh)

lemma those_map_Some:
  "those (map f xs) = Some ys \<Longrightarrow> map f xs = map Some ys"
  by (induction xs arbitrary: ys) (auto split: option.splits)

lemma gather_result_items:
  assumes "gather_result st = Some (Inr items)"
  shows "map (\<lambda>c. returned_item (at c)) (coros st) = map Some items"
  using assms unfolding gather_result_def
  by (auto split: option.splits dest: those_map_Some)

lemma returned_items_in_order:
  assumes inv: "data_inv w urls st" and res: "gather_result st = Some (Inr items)"
  shows "map (item_of w) urls = map Inr items"
proof (rule nth_equalityI)
  from gather_result_items [OF res]
  have m: "map (\<lambda>c. returned_item (at c)) (coros st) = map Some items" .
  then have len: "length (coros st) = length items"
    by (metis length_map)
  from inv have urls: "urls = map item_link (coros st)"
    by (simp add: data_inv_def cs_ok_def)
  with len show "length (map (item_of w) urls) = length (map Inr items)"
    by simp
  fix i assume "i < length (map (item_of w) urls)"
  with urls len have i: "i < length items" and ic: "i < length (coros st)"
    by simp_all
  from m ic i have "returned_item (at (coros st ! i)) = Some (items ! i)"
    by (metis nth_map)
  then have "at (coros st ! i) = Returned (items ! i)"
    by (cases "at (coros st ! i)") simp_all
  moreover from inv ic have "coro_ok w (coros st ! i)"
    unfolding data_inv_def by (rule cs_ok_nth)
  ultimately have "item_of w (item_link (coros st ! i)) = Inr (items ! i)"
    by (simp add: coro_ok_def)
  with urls ic i show "map (item_of w) urls ! i = map Inr items ! i"
    by simp
qed

section \<open>The semaphore invariant\<close>

lemma count_update:
  "i < length ps \<Longrightarrow>
     length (filter P (ps[i := p])) + (if P (ps ! i) then 1 else 0) =
     length (filter P ps) + (if P p then 1 else 0)"
proof (induction ps arbitrary: i)
  case Nil
  then show ?case by simp
next
  case (Cons a ps)
  show ?case
  proof (cases i)
    case 0
    then show ?thesis by simp
  next
    case (Suc k)
    with Cons.prems have "k < length ps" by simp
    from Cons.IH [OF this] Suc show ?thesis by simp
  qed
qed

lemma sem_ok_move:
  assumes "sem_ok K v ws ps" "i < length ps" "holding (ps ! i)" "holding p"
  shows "sem_ok K v ws (ps[i := p])"
proof -
  from assms(3,4) have ne: "ps ! i \<noteq> AcquireWait" "p \<noteq> AcquireWait"
    by auto
  from count_update [OF assms(2), of holding p] assms(3,4)
  have "length (filter holding (ps[i := p])) = length (filter holding ps)"
    by simp
  moreover have "\<And>j. (j < length ps \<and> ps[i := p] ! j = AcquireWait) \<longleftrightarrow> (j < length ps \<and> ps ! j = AcquireWait)"
    using ne assms(2) by (auto simp: nth_list_update)
  ultimately show ?thesis
    using assms(1) by (simp add: sem_ok_def)
qed

lemma sem_ok_leave:
  assumes "sem_ok K v ws ps" "i < length ps" "holding (ps ! i)" "\<not> holding p" "p \<noteq> AcquireWait"
  shows "\<exists>k. K = Suc k \<and> sem_ok k v ws (ps[i := p])"
proof -
  from assms(3) have ne: "ps ! i \<noteq> AcquireWait"
    by auto
  from count_update [OF assms(2), of holding p] assms(3,4)
  have c: "Suc (length (filter holding (ps[i := p]))) = length (filter holding ps)"
    by simp
  have w: "\<And>j. (j < length ps \<and> ps[i := p] ! j = AcquireWait) \<longleftrightarrow> (j < length ps \<and> ps ! j = AcquireWait)"
    using ne assms(2,5) by (auto simp: nth_list_update)
  from assms(1) c have "K = Suc (v + length (filter holding (ps[i := p])))"
    by (simp add: sem_ok_def)
  moreover have "sem_ok (v + length (filter holding (ps[i := p]))) v ws (ps[i := p])"
    using assms(1) w by (simp add: sem_ok_def)
  ultimately show ?thesis
    by blast
qed

lemma sem_ok_release_idle:
  "sem_ok k v [] ps \<Longrightarrow> sem_ok (Suc k) (v + 1) [] ps"
  by (simp add: sem_ok_def)

lemma sem_ok_release_wake:
  assumes "sem_ok k v (j # ws) ps"
  shows "sem_ok (Suc k) v ws (ps[j := AwaitNewPage])"
proof -
  from assms have j: "j < length ps" "ps ! j = AcquireWait" and d: "distinct (j # ws)"
    and v: "v = 0" and mem: "\<And>x. x \<in> set (j # ws) \<longleftrightarrow> x < length ps \<and> ps ! x = AcquireWait"
    and cnt: "v + length (filter holding ps) = k"
    by (auto simp: sem_ok_def)
  from count_update [OF j(1), of holding AwaitNewPage] j(2)
  have "length (filter holding (ps[j := AwaitNewPage])) = Suc (length (filter holding ps))"
    by simp
  with cnt have 1: "v + length (filter holding (ps[j := AwaitNewPage])) = Suc k"
    by simp
  have 2: "\<And>x. x \<in> set ws \<longleftrightarrow> x < length (ps[j := AwaitNewPage]) \<and> ps[j := AwaitNewPage] ! x = AcquireWait"
  proof -
    fix x
    show "x \<in> set ws \<longleftrightarrow> x < length (ps[j := AwaitNewPage]) \<and> ps[j := AwaitNewPage] ! x = AcquireWait"
    proof (cases "x = j")
      case True
      with d j(1) show ?thesis by simp
    next
      case False
      with mem [of x] show ?thesis by (simp add: nth_list_update)
    qed
  qed
  from d have 3: "distinct ws" by simp
  from 1 2 3 v show ?thesis
    unfolding sem_ok_def by blast
qed

lemma sem_ok_acquire_free:
  assumes "sem_ok K v [] ps" "i < length ps" "ps ! i = Created" "0 < v"
  shows "sem_ok K (v - 1) [] (ps[i := AwaitNewPage])"
proof -
  from count_update [OF assms(2), of holding AwaitNewPage] assms(3)
  have "length (filter holding (ps[i := AwaitNewPage])) = Suc (length (filter holding ps))"
    by simp
  moreover have "\<And>j. \<not> (j < length ps \<and> ps[i := AwaitNewPage] ! j = AcquireWait)"
  proof -
    fix j
    show "\<not> (j < length ps \<and> ps[i := AwaitNewPage] ! j = AcquireWait)"
    proof (cases "j = i")
      case True
      with assms(2) show ?thesis by simp
    next
      case False
      with assms(1) show ?thesis by (simp add: sem_ok_def)
    qed
  qed
  ultimately show ?thesis
    using assms(1,4) by (simp add: sem_ok_def)
qed

lemma sem_ok_acquire_queue:
  assumes "sem_ok K v ws ps" "i < length ps" "ps ! i = Created" "\<not> (0 < v \<and> ws = [])"
  shows "sem_ok K v (ws @ [i]) (ps[i := AcquireWait])"
proof -
  from assms(1,3) have notin: "i \<notin> set ws"
    by (auto simp: sem_ok_def)
  from count_update [OF assms(2), of holding AcquireWait] assms(3)
  have 1: "length (filter holding (ps[i := AcquireWait])) = length (filter holding ps)"
    by simp
  have 2: "\<And>j. j \<in> set (ws @ [i]) \<longleftrightarrow> j < length (ps[i := AcquireWait]) \<and> ps[i := AcquireWait] ! j = AcquireWait"
    using assms(1,2) by (auto simp: sem_ok_def nth_list_update)
  from assms(1,4) have 3: "v = 0"
    by (auto simp: sem_ok_def)
  from assms(1) notin have 4: "distinct (ws @ [i])"
    by (simp add: sem_ok_def)
  from assms(1) 1 have 5: "v + length (filter holding (ps[i := AcquireWait])) = K"
    by (simp add: sem_ok_def)
  from 2 3 4 5 show ?thesis
    unfolding sem_ok_def by blast
qed

lemma set_pc_fields [simp]:
  "sem_value (set_pc i p st) = sem_value st"
  "sem_waiters (set_pc i p st) = sem_waiters st"
  "pages_created (set_pc i p st) = pages_created st"
  "open_pages (set_pc i p st) = open_pages st"
  "gotos (set_pc i p st) = gotos st"
  "stdout (set_pc i p st) = stdout st"
  "gather_exc (set_pc i p st) = gather_exc st"
  "length (coros (set_pc i p st)) = length (coros st)"
  by (simp_all add: set_pc_def)

lemma map_at_set_pc: "map at (coros (set_pc i p st)) = (map at (coros st))[i := p]"
  by (simp add: set_pc_def map_update)

lemma sem_inv_release: "sem_inv k st \<Longrightarrow> sem_inv (Suc k) (release st)"
proof (cases "sem_waiters st")
  case Nil
  then show "sem_inv k st \<Longrightarrow> ?thesis"
    using sem_ok_release_idle [of k "sem_value st" "map at (coros st)"]
    by (simp add: sem_inv_def release_def)
next
  case (Cons j ws)
  then show "sem_inv k st \<Longrightarrow> ?thesis"
    using sem_ok_release_wake [of k "sem_value st" j ws "map at (coros st)"]
    by (simp add: sem_inv_def release_def map_at_set_pc)
qed

lemma sem_inv_move:
  "sem_inv K st \<Longrightarrow> i < length (coros st) \<Longrightarrow> holding (at (coros st ! i)) \<Longrightarrow> holding p \<Longrightarrow>
     sem_inv K (set_pc i p st)"
  using sem_ok_move [of K "sem_value st" "sem_waiters st" "map at (coros st)" i p]
  by (simp add: sem_inv_def map_at_set_pc)

lemma sem_inv_leave_release:
  assumes "sem_inv K st" "i < length (coros st)" "holding (at (coros st ! i))"
    "\<not> holding p" "p \<noteq> AcquireWait"
  shows "sem_inv K (release (set_pc i p st))"
proof -
  from sem_ok_leave [of K "sem_value st" "sem_waiters st" "map at (coros st)" i p] assms
  obtain k where k: "K = Suc k" "sem_ok k (sem_value st) (sem_waiters st) ((map at (coros st))[i := p])"
    by (auto simp: sem_inv_def)
  then have "sem_inv k (set_pc i p st)"
    by (simp add: sem_inv_def map_at_set_pc)
  then have "sem_inv (Suc k) (release (set_pc i p st))"
    by (rule sem_inv_release)
  with k(1) show ?thesis by simp
qed

lemma sem_inv_raise_in:
  assumes "sem_inv K st" "i < length (coros st)" "holding (at (coros st ! i))"
  shows "sem_inv K (raise_in i e st)"
proof -
  from assms have "sem_inv K (release (set_pc i (Raised e) st))"
    by (intro sem_inv_leave_release) simp_all
  then show ?thesis
    by (simp add: raise_in_def Let_def sem_inv_def)
qed

lemma sem_inv_resolve:
  assumes inv: "sem_inv K st" and i: "i < length (coros st)"
  shows "sem_inv K (resolve w i st)"
proof (cases "at (coros st ! i)")
  case AwaitNewPage
  have "map at ((coros st)[i := (coros st ! i)\<lparr> page := Some (pages_created st), at := AwaitGoto \<rparr>])
        = (map at (coros st))[i := AwaitGoto]"
    by (simp add: map_update)
  moreover have "sem_ok K (sem_value st) (sem_waiters st) ((map at (coros st))[i := AwaitGoto])"
    using inv i AwaitNewPage unfolding sem_inv_def by (intro sem_ok_move) simp_all
  ultimately show ?thesis
    using AwaitNewPage by (simp add: resolve_def Let_def sem_inv_def)
next
  case AwaitGoto
  with sem_inv_move [OF inv i, of AwaitContent] show ?thesis
    by (simp add: resolve_def Let_def)
next
  case AwaitContent
  show ?thesis
  proof (cases "html_parser w (rendered w (item_link (coros st ! i)))")
    case (Inl e)
    with AwaitContent sem_inv_raise_in [OF inv i, of e] show ?thesis
      by (simp add: resolve_def Let_def)
  next
    case (Inr doc)
    with AwaitContent sem_inv_move [OF inv i, of "AwaitClose (extract_item doc)"] show ?thesis
      by (simp add: resolve_def Let_def)
  qed
next
  case (AwaitClose item)
  let ?st = "st\<lparr> open_pages := open_pages st - set_option (page (coros st ! i)),
                  stdout := stdout st @ [ustr ''Item parsed - '' @ [34] @ name item @ [34]] \<rparr>"
  from inv have "sem_inv K ?st"
    by (simp add: sem_inv_def)
  then have "sem_inv K (release (set_pc i (Returned item) ?st))"
    using i AwaitClose by (intro sem_inv_leave_release) simp_all
  with AwaitClose show ?thesis
    by (simp add: resolve_def Let_def)
qed (simp_all add: resolve_def Let_def inv)

lemma sem_inv_reject:
  "sem_inv K st \<Longrightarrow> i < length (coros st) \<Longrightarrow> sem_inv K (reject i e st)"
  by (simp add: reject_def sem_inv_raise_in)

lemma sem_inv_step: "sem_inv K st \<Longrightarrow> sem_inv K (step w st ev)"
  unfolding step_def
  by (cases ev) (simp_all add: sem_inv_resolve sem_inv_reject)

lemma sem_inv_foldl: "sem_inv K st \<Longrightarrow> sem_inv K (foldl (step w) st evs)"
  by (induction evs arbitrary: st) (simp_all add: sem_inv_step)

section \<open>Progress: a run that has not failed can always finish\<close>

lemma pcs_all_set_pc: "pcs_all Q st \<Longrightarrow> Q p \<Longrightarrow> pcs_all Q (set_pc i p st)"
  by (simp add: pcs_all_def map_at_set_pc list_all_update)

lemma pcs_all_release: "pcs_all Q st \<Longrightarrow> Q AwaitNewPage \<Longrightarrow> pcs_all Q (release st)"
proof (cases "sem_waiters st")
  case Nil
  then show "pcs_all Q st \<Longrightarrow> ?thesis"
    by (simp add: release_def pcs_all_def)
next
  case (Cons j ws)
  assume "pcs_all Q st" and q: "Q AwaitNewPage"
  then have "pcs_all Q (st\<lparr> sem_waiters := ws \<rparr>)"
    by (simp add: pcs_all_def)
  then have "pcs_all Q (set_pc j AwaitNewPage (st\<lparr> sem_waiters := ws \<rparr>))"
    using q by (rule pcs_all_set_pc)
  with Cons show ?thesis
    by (simp add: release_def)
qed

lemma parses_doc: "parses w url \<Longrightarrow> \<exists>doc. html_parser w (rendered w url) = Inr doc"
  by (cases "html_parser w (rendered w url)") (simp_all add: parses_def)

lemma pcs_all_resolve:
  assumes inv: "pcs_all Q st" and q: "\<And>p. started p \<Longrightarrow> \<not> failed p \<Longrightarrow> Q p"
    and p: "parses w (item_link (coros st ! i))"
  shows "pcs_all Q (resolve w i st)"
proof (cases "at (coros st ! i)")
  case AwaitNewPage
  have "list_all Q ((map at (coros st))[i := AwaitGoto])"
    using inv unfolding pcs_all_def by (rule list_all_update) (simp add: q)
  with AwaitNewPage show ?thesis
    by (simp add: resolve_def Let_def pcs_all_def map_update)
next
  case AwaitGoto
  with pcs_all_set_pc [OF inv, of AwaitContent i] show ?thesis
    by (simp add: resolve_def Let_def q)
next
  case AwaitContent
  from parses_doc [OF p] obtain doc where
    "html_parser w (rendered w (item_link (coros st ! i))) = Inr doc" ..
  with AwaitContent pcs_all_set_pc [OF inv, of "AwaitClose (extract_item doc)" i]
  show ?thesis
    by (simp add: resolve_def Let_def q)
next
  case (AwaitClose item)
  let ?st = "st\<lparr> open_pages := open_pages st - set_option (page (coros st ! i)),
                  stdout := stdout st @ [ustr ''Item parsed - '' @ [34] @ name item @ [34]] \<rparr>"
  from inv have "pcs_all Q ?st"
    by (simp add: pcs_all_def)
  then have "pcs_all Q (release (set_pc i (Returned item) ?st))"
    by (intro pcs_all_release pcs_all_set_pc) (simp_all add: q)
  with AwaitClose show ?thesis
    by (simp add: resolve_def Let_def)
qed (simp_all add: resolve_def Let_def inv)

lemma resolve_gather_exc:
  "parses w (item_link (coros st ! i)) \<Longrightarrow> gather_exc (resolve w i st) = gather_exc st"
  by (cases "at (coros st ! i)")
    (auto simp: resolve_def Let_def release_def split: list.splits dest: parses_doc)

lemma raise_in_length [simp]: "length (coros (raise_in i e st)) = length (coros st)"
  by (simp add: raise_in_def Let_def release_def split: list.splits)

lemma resolve_length [simp]: "length (coros (resolve w i st)) = length (coros st)"
  by (cases "at (coros st ! i)")
    (simp_all add: resolve_def Let_def release_def split: list.splits sum.splits)

lemma reject_length [simp]: "length (coros (reject i e st)) = length (coros st)"
  by (simp add: reject_def)

lemma step_length [simp]: "length (coros (step w st ev)) = length (coros st)"
  by (cases ev) (simp_all add: step_def)

lemma foldl_step_length [simp]: "length (coros (foldl (step w) st evs)) = length (coros st)"
  by (induction evs arbitrary: st) simp_all

lemma sum_list_update_nat:
  "i < length ns \<Longrightarrow> sum_list (ns[i := x]) + ns ! i = sum_list ns + (x::nat)"
proof (induction ns arbitrary: i)
  case Nil
  then show ?case by simp
next
  case (Cons a ns)
  show ?case
  proof (cases i)
    case 0
    then show ?thesis by simp
  next
    case (Suc k)
    with Cons.prems have "k < length ns" by simp
    from Cons.IH [OF this] Suc show ?thesis by simp
  qed
qed

lemma work_set_pc:
  "i < length (coros st) \<Longrightarrow> work (set_pc i p st) + rank (at (coros st ! i)) = work st + rank p"
  using sum_list_update_nat [of i "map rank (map at (coros st))" "rank p"]
  by (simp add: work_def map_at_set_pc map_update)

lemma work_release: "sem_inv K st \<Longrightarrow> work (release st) \<le> work st"
proof (cases "sem_waiters st")
  case Nil
  then show ?thesis
    by (simp add: release_def work_def)
next
  case (Cons j ws)
  assume "sem_inv K st"
  then have "\<forall>x. x \<in> set (sem_waiters st) \<longleftrightarrow>
      x < length (map at (coros st)) \<and> map at (coros st) ! x = AcquireWait"
    unfolding sem_inv_def sem_ok_def by blast
  then have "j \<in> set (sem_waiters st) \<longleftrightarrow>
      j < length (map at (coros st)) \<and> map at (coros st) ! j = AcquireWait" ..
  with Cons have "j < length (coros st) \<and> map at (coros st) ! j = AcquireWait"
    by simp
  then have j: "j < length (coros st)" "at (coros st ! j) = AcquireWait"
    by auto
  let ?st = "st\<lparr> sem_waiters := ws \<rparr>"
  from j work_set_pc [of j ?st AwaitNewPage]
  have "work (set_pc j AwaitNewPage ?st) + 5 = work ?st + 4"
    by simp
  moreover have "work ?st = work st"
    by (simp add: work_def)
  ultimately show ?thesis
    using Cons by (simp add: release_def)
qed

lemma work_resolve:
  assumes inv: "sem_inv K st" and i: "i < length (coros st)" and h: "holding (at (coros st ! i))"
    and p: "parses w (item_link (coros st ! i))"
  shows "work (resolve w i st) < work st"
proof (cases "at (coros st ! i)")
  case AwaitNewPage
  let ?c = "(coros st ! i)\<lparr> page := Some (pages_created st), at := AwaitGoto \<rparr>"
  have "sum_list ((map rank (map at (coros st)))[i := 3]) + rank (at (coros st ! i))
          = sum_list (map rank (map at (coros st))) + 3"
    using sum_list_update_nat [of i "map rank (map at (coros st))" 3] i by simp
  moreover have "map rank (map at ((coros st)[i := ?c])) = (map rank (map at (coros st)))[i := 3]"
    by (simp add: map_update)
  ultimately show ?thesis
    using AwaitNewPage by (simp add: resolve_def Let_def work_def)
next
  case AwaitGoto
  with work_set_pc [OF i, of AwaitContent] show ?thesis
    by (simp add: resolve_def Let_def)
next
  case AwaitContent
  from parses_doc [OF p] obtain doc where
    "html_parser w (rendered w (item_link (coros st ! i))) = Inr doc" ..
  with AwaitContent work_set_pc [OF i, of "AwaitClose (extract_item doc)"] show ?thesis
    by (simp add: resolve_def Let_def)
next
  case (AwaitClose item)
  let ?st = "st\<lparr> open_pages := open_pages st - set_option (page (coros st ! i)),
                  stdout := stdout st @ [ustr ''Item parsed - '' @ [34] @ name item @ [34]] \<rparr>"
  have inv': "sem_inv K ?st"
    using inv by (simp add: sem_inv_def)
  have w: "work ?st = work st"
    by (simp add: work_def)
  from sem_ok_leave [of K "sem_value st" "sem_waiters st" "map at (coros st)" i "Returned item"]
    inv i AwaitClose
  obtain k where "sem_ok k (sem_value st) (sem_waiters st) ((map at (coros st))[i := Returned item])"
    by (auto simp: sem_inv_def)
  then have "sem_inv k (set_pc i (Returned item) ?st)"
    by (simp add: sem_inv_def map_at_set_pc)
  then have "work (release (set_pc i (Returned item) ?st)) \<le> work (set_pc i (Returned item) ?st)"
    by (rule work_release)
  moreover from work_set_pc [of i ?st "Returned item"] i AwaitClose w
  have "work (set_pc i (Returned item) ?st) + 1 = work st"
    by simp
  ultimately show ?thesis
    using AwaitClose by (simp add: resolve_def Let_def)
qed (use h in simp_all)

lemma those_None: "those xs = None \<Longrightarrow> None \<in> set xs"
  by (induction xs) (auto split: option.splits)

lemma exists_holder:
  assumes inv: "sem_inv K st" and K: "1 \<le> K" and s: "pcs_all started st"
    and f: "pcs_all (\<lambda>p. \<not> failed p) st" and g: "gather_result st = None"
  shows "\<exists>i < length (coros st). holding (at (coros st ! i))"
proof -
  from g have exc: "gather_exc st = None"
    and "those (map (\<lambda>c. returned_item (at c)) (coros st)) = None"
    by (auto simp: gather_result_def split: option.splits)
  then have "None \<in> set (map (\<lambda>c. returned_item (at c)) (coros st))"
    by (intro those_None)
  then obtain i where i: "i < length (coros st)" and r: "returned_item (at (coros st ! i)) = None"
    by (auto simp: in_set_conv_nth)
  from s f i have sf: "started (at (coros st ! i))" "\<not> failed (at (coros st ! i))"
    by (simp_all add: pcs_all_def list_all_length)
  show ?thesis
  proof (cases "holding (at (coros st ! i))")
    case True
    with i show ?thesis by blast
  next
    case False
    with sf r have "at (coros st ! i) = AcquireWait"
      by (cases "at (coros st ! i)") simp_all
    with i inv have "i \<in> set (sem_waiters st)"
      by (simp add: sem_inv_def sem_ok_def)
    then have "sem_waiters st \<noteq> []"
      by auto
    with inv K have "1 \<le> length (filter holding (map at (coros st)))"
      by (auto simp: sem_inv_def sem_ok_def)
    then have "filter holding (map at (coros st)) \<noteq> []"
      by (metis length_0_conv not_one_le_zero)
    then have "\<exists>p \<in> set (map at (coros st)). holding p"
      by (simp only: filter_empty_conv not_all not_not bex_simps Bex_def) blast
    then obtain j where "j < length (map at (coros st))" "holding (map at (coros st) ! j)"
      by (metis in_set_conv_nth)
    then show ?thesis
      by auto
  qed
qed

lemma resolve_links:
  "i < length (coros st) \<Longrightarrow> data_inv w urls st \<Longrightarrow> item_link (coros st ! i) = urls ! i"
  by (metis cs_ok_def data_inv_def nth_map)

lemma can_finish:
  assumes "sem_inv K st" "1 \<le> K" "pcs_all started st" "pcs_all (\<lambda>p. \<not> failed p) st"
    "gather_exc st = None" "data_inv w urls st" "\<forall>url \<in> set urls. parses w url"
  shows "\<exists>evs items. gather_result (foldl (step w) st evs) = Some (Inr items)"
  using assms
proof (induction "work st" arbitrary: st rule: less_induct)
  case less
  show ?case
  proof (cases "gather_result st")
    case (Some r)
    with less.prems(5) obtain items where "r = Inr items"
      by (auto simp: gather_result_def)
    with Some have "gather_result (foldl (step w) st []) = Some (Inr items)"
      by simp
    then show ?thesis by blast
  next
    case None
    from exists_holder [OF less.prems(1-4) None]
    obtain i where i: "i < length (coros st)" "holding (at (coros st ! i))"
      by blast
    from less.prems(6) have "length urls = length (coros st)"
      by (metis cs_ok_def data_inv_def length_map)
    with i(1) less.prems(7) have "parses w (urls ! i)"
      by simp
    with resolve_links [OF i(1) less.prems(6)] have p: "parses w (item_link (coros st ! i))"
      by simp
    let ?st = "resolve w i st"
    have st: "step w st (Resolve i) = ?st"
      using None i by (simp add: step_def)
    have "work ?st < work st"
      using less.prems(1) i p by (rule work_resolve)
    moreover have "sem_inv K ?st"
      using less.prems(1) i(1) by (rule sem_inv_resolve)
    moreover have "pcs_all started ?st"
      using less.prems(3) by (rule pcs_all_resolve) (simp_all add: p)
    moreover have "pcs_all (\<lambda>p. \<not> failed p) ?st"
      using less.prems(4) by (rule pcs_all_resolve) (simp_all add: p)
    moreover have "gather_exc ?st = None"
      using less.prems(5) p by (simp add: resolve_gather_exc)
    moreover have "data_inv w urls ?st"
      using less.prems(6) i(1) by (rule data_inv_resolve)
    ultimately obtain evs items where "gather_result (foldl (step w) ?st evs) = Some (Inr items)"
      using less.hyps [of ?st] less.prems(2,7) by blast
    with st have "gather_result (foldl (step w) st (Resolve i # evs)) = Some (Inr items)"
      by simp
    then show ?thesis by blast
  qed
qed

section \<open>Starting the tasks\<close>

lemma acquire_length [simp]: "length (coros (acquire i st)) = length (coros st)"
  by (simp add: acquire_def)

lemma acquire_gather_exc [simp]: "gather_exc (acquire i st) = gather_exc st"
  by (simp add: acquire_def)

lemma acquire_at_other:
  "j \<noteq> i \<Longrightarrow> at (coros (acquire i st) ! j) = at (coros st ! j)"
  by (simp add: acquire_def set_pc_def)

lemma acquire_at_self:
  "i < length (coros st) \<Longrightarrow> at (coros (acquire i st) ! i) \<in> {AwaitNewPage, AcquireWait}"
  by (simp add: acquire_def set_pc_def)

lemma sem_inv_acquire:
  assumes inv: "sem_inv K st" and i: "i < length (coros st)" and c: "at (coros st ! i) = Created"
  shows "sem_inv K (acquire i st)"
proof (cases "0 < sem_value st \<and> sem_waiters st = []")
  case True
  with inv i c have "sem_ok K (sem_value st - 1) [] ((map at (coros st))[i := AwaitNewPage])"
    unfolding sem_inv_def by (intro sem_ok_acquire_free) simp_all
  with True show ?thesis
    by (simp add: acquire_def sem_inv_def map_at_set_pc)
next
  case False
  with inv i c
  have "sem_ok K (sem_value st) (sem_waiters st @ [i]) ((map at (coros st))[i := AcquireWait])"
    unfolding sem_inv_def by (intro sem_ok_acquire_queue) simp_all
  moreover from False have "acquire i st = set_pc i AcquireWait (st\<lparr> sem_waiters := sem_waiters st @ [i] \<rparr>)"
    unfolding acquire_def by (simp only: if_False)
  ultimately show ?thesis
    by (simp add: sem_inv_def map_at_set_pc)
qed

lemma sem_inv_fresh: "sem_inv K (fresh_loop K urls)"
  by (simp add: sem_inv_def sem_ok_def fresh_loop_def comp_def)

lemma start_prefix:
  "n \<le> length urls \<Longrightarrow>
     sem_inv K (fold acquire [0..<n] (fresh_loop K urls)) \<and>
     length (coros (fold acquire [0..<n] (fresh_loop K urls))) = length urls \<and>
     started_upto n (fold acquire [0..<n] (fresh_loop K urls)) \<and>
     gather_exc (fold acquire [0..<n] (fresh_loop K urls)) = None"
proof (induction n)
  case 0
  show ?case
    by (simp add: sem_inv_fresh started_upto_def) (simp add: fresh_loop_def)
next
  case (Suc n)
  let ?st = "fold acquire [0..<n] (fresh_loop K urls)"
  from Suc have inv: "sem_inv K ?st" and len: "length (coros ?st) = length urls"
    and up: "started_upto n ?st" and exc: "gather_exc ?st = None" and n: "n < length urls"
    by simp_all
  from up n len have c: "at (coros ?st ! n) = Created"
    by (simp add: started_upto_def)
  have f: "fold acquire [0..<Suc n] (fresh_loop K urls) = acquire n ?st"
    by simp
  have "sem_inv K (acquire n ?st)"
    using inv n len c by (intro sem_inv_acquire) simp_all
  moreover have "started_upto (Suc n) (acquire n ?st)"
    unfolding started_upto_def
  proof (intro allI impI)
    fix j assume j: "j < length (coros (acquire n ?st))"
    show "(j < Suc n \<longrightarrow> at (coros (acquire n ?st) ! j) \<in> {AwaitNewPage, AcquireWait}) \<and>
          (Suc n \<le> j \<longrightarrow> at (coros (acquire n ?st) ! j) = Created)"
    proof (cases "j = n")
      case True
      with acquire_at_self [of n ?st] n len show ?thesis by simp
    next
      case False
      with up j show ?thesis
        by (auto simp: started_upto_def acquire_at_other)
    qed
  qed
  ultimately show ?case
    unfolding f using len exc by simp
qed

lemma start_props:
  "sem_inv K (start K urls)" "length (coros (start K urls)) = length urls"
  "pcs_all started (start K urls)" "pcs_all (\<lambda>p. \<not> failed p) (start K urls)"
  "gather_exc (start K urls) = None"
proof -
  let ?st = "start K urls"
  from start_prefix [of "length urls" urls K]
  have inv: "sem_inv K ?st" and len: "length (coros ?st) = length urls"
    and up: "started_upto (length urls) ?st" and exc: "gather_exc ?st = None"
    by (simp_all add: start_def)
  from up len have "\<And>j. j < length (coros ?st) \<Longrightarrow> at (coros ?st ! j) \<in> {AwaitNewPage, AcquireWait}"
    by (simp add: started_upto_def)
  then have "\<And>j. j < length (coros ?st) \<Longrightarrow> started (at (coros ?st ! j)) \<and> \<not> failed (at (coros ?st ! j))"
    by fastforce
  then show "pcs_all started ?st" "pcs_all (\<lambda>p. \<not> failed p) ?st"
    by (simp_all add: pcs_all_def list_all_length)
  from inv len exc show "sem_inv K ?st" "length (coros ?st) = length urls" "gather_exc ?st = None"
    by simp_all
qed

lemma sem_inv_run: "sem_inv K (run_bounded w K urls evs)"
  unfolding run_bounded_def by (intro sem_inv_foldl start_props)

lemma run_length [simp]: "length (coros (run_bounded w K urls evs)) = length urls"
  by (simp add: run_bounded_def start_props)

lemma run_can_finish:
  assumes "1 \<le> K" and "\<forall>url \<in> set urls. parses w url"
  shows "\<exists>evs items. gather_result (run_bounded w K urls evs) = Some (Inr items)"
proof -
  have "data_inv w urls (start K urls)"
    unfolding start_def by (intro data_inv_fold_acquire data_inv_fresh)
  with assms show ?thesis
    unfolding run_bounded_def
    by (intro can_finish [of K _ w urls] start_props) simp_all
qed

section \<open>Pages and navigation\<close>

lemma page_ok_mono:
  "page_ok n S c \<Longrightarrow> n \<le> n' \<Longrightarrow> (\<And>p. p < n \<Longrightarrow> p \<in> S' \<Longrightarrow> p \<in> S) \<Longrightarrow> page_ok n' S' c"
  unfolding page_ok_def by (metis le_trans less_le_not_le linorder_not_le)

lemma linked_update_same:
  "(i < length cs \<Longrightarrow> item_link c = item_link (cs ! i) \<and> page c = page (cs ! i)) \<Longrightarrow>
     linked (cs[i := c]) = linked cs"
proof (induction cs arbitrary: i)
  case Nil
  then show ?case by simp
next
  case (Cons a cs)
  show ?case
  proof (cases i)
    case 0
    with Cons.prems show ?thesis by (simp add: linked_def)
  next
    case (Suc k)
    with Cons.prems have "k < length cs \<Longrightarrow> item_link c = item_link (cs ! k) \<and> page c = page (cs ! k)"
      by simp
    from Cons.IH [OF this] Suc show ?thesis by (simp add: linked_def)
  qed
qed

lemma linked_update_new:
  "i < length cs \<Longrightarrow> page (cs ! i) = None \<Longrightarrow> page c \<noteq> None \<Longrightarrow>
     mset (linked (cs[i := c])) = add_mset (item_link c) (mset (linked cs))"
proof (induction cs arbitrary: i)
  case Nil
  then show ?case by simp
next
  case (Cons a cs)
  show ?case
  proof (cases i)
    case 0
    with Cons.prems show ?thesis by (simp add: linked_def)
  next
    case (Suc k)
    with Cons.prems have "k < length cs" "page (cs ! k) = None"
      by simp_all
    from Cons.IH [OF this Cons.prems(3)] Suc show ?thesis by (simp add: linked_def)
  qed
qed

lemma page_inv_set_pc:
  assumes inv: "page_inv st"
    and ok: "i < length (coros st) \<Longrightarrow>
       page_ok (pages_created st) (open_pages st) ((coros st ! i)\<lparr> at := p \<rparr>)"
  shows "page_inv (set_pc i p st)"
proof -
  have "linked ((coros st)[i := (coros st ! i)\<lparr> at := p \<rparr>]) = linked (coros st)"
    by (rule linked_update_same) simp
  moreover have "list_all (page_ok (pages_created st) (open_pages st))
      ((coros st)[i := (coros st ! i)\<lparr> at := p \<rparr>])"
    using inv ok unfolding page_inv_def by (intro list_all_update) simp_all
  ultimately show ?thesis
    using inv by (simp add: page_inv_def set_pc_def)
qed

lemma page_inv_nth:
  "page_inv st \<Longrightarrow> i < length (coros st) \<Longrightarrow>
     page_ok (pages_created st) (open_pages st) (coros st ! i)"
  by (simp add: page_inv_def list_all_length)

lemma sem_inv_head_waiter:
  assumes "sem_inv K st" "sem_waiters st = j # ws"
  shows "j < length (coros st) \<and> at (coros st ! j) = AcquireWait"
proof -
  from assms(1) have "\<forall>x. x \<in> set (sem_waiters st) \<longleftrightarrow>
      x < length (map at (coros st)) \<and> map at (coros st) ! x = AcquireWait"
    unfolding sem_inv_def sem_ok_def by blast
  then have "j \<in> set (sem_waiters st) \<longleftrightarrow>
      j < length (map at (coros st)) \<and> map at (coros st) ! j = AcquireWait" ..
  with assms(2) have "j < length (coros st) \<and> map at (coros st) ! j = AcquireWait"
    by simp
  then show ?thesis by auto
qed

lemma page_inv_release:
  assumes inv: "page_inv st" and sem: "sem_inv k st"
  shows "page_inv (release st)"
proof (cases "sem_waiters st")
  case Nil
  with inv show ?thesis
    by (simp add: release_def page_inv_def)
next
  case (Cons j ws)
  let ?st = "st\<lparr> sem_waiters := ws \<rparr>"
  from sem_inv_head_waiter [OF sem Cons]
  have j: "j < length (coros st)" "at (coros st ! j) = AcquireWait"
    by simp_all
  from inv have inv': "page_inv ?st"
    by (simp add: page_inv_def)
  from page_inv_nth [OF inv j(1)] j(2)
  have "page_ok (pages_created st) (open_pages st) ((coros st ! j)\<lparr> at := AwaitNewPage \<rparr>)"
    by (simp add: page_ok_def)
  then have "page_inv (set_pc j AwaitNewPage ?st)"
    using inv' by (intro page_inv_set_pc) simp_all
  with Cons show ?thesis
    by (simp add: release_def)
qed

lemma sem_inv_after_leave:
  assumes "sem_inv K st" "i < length (coros st)" "holding (at (coros st ! i))"
    "\<not> holding p" "p \<noteq> AcquireWait"
  shows "\<exists>k. sem_inv k (set_pc i p st)"
proof -
  from sem_ok_leave [of K "sem_value st" "sem_waiters st" "map at (coros st)" i p] assms
  obtain k where "sem_ok k (sem_value st) (sem_waiters st) ((map at (coros st))[i := p])"
    by (auto simp: sem_inv_def)
  then have "sem_inv k (set_pc i p st)"
    by (simp add: sem_inv_def map_at_set_pc)
  then show ?thesis ..
qed

lemma page_inv_raise_in:
  assumes inv: "page_inv st" and sem: "sem_inv K st" and i: "i < length (coros st)"
    and h: "holding (at (coros st ! i))"
  shows "page_inv (raise_in i e st)"
proof -
  from page_inv_nth [OF inv i]
  have "page_ok (pages_created st) (open_pages st) ((coros st ! i)\<lparr> at := Raised e \<rparr>)"
    by (simp add: page_ok_def)
  then have 1: "page_inv (set_pc i (Raised e) st)"
    using inv by (intro page_inv_set_pc) simp_all
  from sem i h have "\<exists>k. sem_inv k (set_pc i (Raised e) st)"
    by (intro sem_inv_after_leave) simp_all
  then obtain k where "sem_inv k (set_pc i (Raised e) st)" ..
  with 1 have "page_inv (release (set_pc i (Raised e) st))"
    by (rule page_inv_release)
  then show ?thesis
    by (simp add: raise_in_def Let_def page_inv_def)
qed

lemma page_inv_resolve:
  assumes inv: "page_inv st" and sem: "sem_inv K st" and i: "i < length (coros st)"
  shows "page_inv (resolve w i st)"
proof (cases "at (coros st ! i)")
  case AwaitNewPage
  let ?n = "pages_created st"
  let ?c = "(coros st ! i)\<lparr> page := Some ?n, at := AwaitGoto \<rparr>"
  from page_inv_nth [OF inv i] AwaitNewPage have none: "page (coros st ! i) = None"
    by (simp add: page_ok_def)
  have "list_all (page_ok (?n + 1) (insert ?n (open_pages st))) (coros st)"
    using inv unfolding page_inv_def list_all_iff
    by (auto intro: page_ok_mono)
  moreover have "page_ok (?n + 1) (insert ?n (open_pages st)) ?c"
    by (simp add: page_ok_def)
  ultimately have "list_all (page_ok (?n + 1) (insert ?n (open_pages st))) ((coros st)[i := ?c])"
    by (intro list_all_update)
  moreover have "mset (gotos st @ [item_link (coros st ! i)]) = mset (linked ((coros st)[i := ?c]))"
    using inv linked_update_new [OF i none, of ?c] by (simp add: page_inv_def)
  ultimately show ?thesis
    using AwaitNewPage by (simp add: resolve_def Let_def page_inv_def)
next
  case AwaitGoto
  from page_inv_nth [OF inv i] AwaitGoto
  have "page_ok (pages_created st) (open_pages st) ((coros st ! i)\<lparr> at := AwaitContent \<rparr>)"
    by (simp add: page_ok_def)
  with page_inv_set_pc [OF inv, of i AwaitContent] AwaitGoto show ?thesis
    by (simp add: resolve_def Let_def)
next
  case AwaitContent
  show ?thesis
  proof (cases "html_parser w (rendered w (item_link (coros st ! i)))")
    case (Inl e)
    from AwaitContent have "holding (at (coros st ! i))"
      by simp
    with Inl AwaitContent page_inv_raise_in [OF inv sem i, of e] show ?thesis
      by (simp add: resolve_def Let_def)
  next
    case (Inr doc)
    let ?p = "AwaitClose (extract_item doc)"
    from page_inv_nth [OF inv i] AwaitContent
    have "page_ok (pages_created st) (open_pages st) ((coros st ! i)\<lparr> at := ?p \<rparr>)"
      by (simp add: page_ok_def)
    with page_inv_set_pc [OF inv, of i ?p] AwaitContent Inr show ?thesis
      by (simp add: resolve_def Let_def)
  qed
next
  case (AwaitClose item)
  let ?S = "open_pages st - set_option (page (coros st ! i))"
  let ?st = "st\<lparr> open_pages := ?S,
                  stdout := stdout st @ [ustr ''Item parsed - '' @ [34] @ name item @ [34]] \<rparr>"
  have "list_all (page_ok (pages_created st) ?S) (coros st)"
    using inv unfolding page_inv_def list_all_iff
    by (auto intro: page_ok_mono)
  then have inv': "page_inv ?st"
    using inv by (simp add: page_inv_def)
  from page_inv_nth [OF inv i] AwaitClose
  have "page_ok (pages_created st) ?S ((coros st ! i)\<lparr> at := Returned item \<rparr>)"
    by (auto simp: page_ok_def)
  then have 1: "page_inv (set_pc i (Returned item) ?st)"
    using inv' by (intro page_inv_set_pc) simp_all
  from sem have "sem_inv K ?st"
    by (simp add: sem_inv_def)
  then have "\<exists>k. sem_inv k (set_pc i (Returned item) ?st)"
    using i AwaitClose by (intro sem_inv_after_leave) simp_all
  then obtain k where "sem_inv k (set_pc i (Returned item) ?st)" ..
  with 1 have "page_inv (release (set_pc i (Returned item) ?st))"
    by (rule page_inv_release)
  with AwaitClose show ?thesis
    by (simp add: resolve_def Let_def)
qed (simp_all add: resolve_def Let_def inv)

lemma page_inv_reject:
  "page_inv st \<Longrightarrow> sem_inv K st \<Longrightarrow> i < length (coros st) \<Longrightarrow> page_inv (reject i e st)"
  by (simp add: reject_def page_inv_raise_in)

lemma page_inv_step: "page_inv st \<Longrightarrow> sem_inv K st \<Longrightarrow> page_inv (step w st ev)"
  unfolding step_def
  by (cases ev) (simp_all add: page_inv_resolve page_inv_reject)

lemma page_inv_foldl:
  "page_inv st \<Longrightarrow> sem_inv K st \<Longrightarrow> page_inv (foldl (step w) st evs)"
  by (induction evs arbitrary: st) (simp_all add: page_inv_step sem_inv_step)

lemma page_inv_acquire:
  assumes inv: "page_inv st" and c: "i < length (coros st) \<Longrightarrow> at (coros st ! i) = Created"
  shows "page_inv (acquire i st)"
proof -
  have ok: "i < length (coros st) \<Longrightarrow>
      page_ok (pages_created st) (open_pages st) ((coros st ! i)\<lparr> at := AwaitNewPage \<rparr>) \<and>
      page_ok (pages_created st) (open_pages st) ((coros st ! i)\<lparr> at := AcquireWait \<rparr>)"
    using page_inv_nth [OF inv, of i] c by (simp add: page_ok_def)
  from inv have 1: "page_inv (st\<lparr> sem_value := sem_value st - 1 \<rparr>)"
    and 2: "page_inv (st\<lparr> sem_waiters := sem_waiters st @ [i] \<rparr>)"
    by (simp_all add: page_inv_def)
  have "page_inv (set_pc i AwaitNewPage (st\<lparr> sem_value := sem_value st - 1 \<rparr>))"
    using 1 by (rule page_inv_set_pc) (simp add: ok)
  moreover have "page_inv (set_pc i AcquireWait (st\<lparr> sem_waiters := sem_waiters st @ [i] \<rparr>))"
    using 2 by (rule page_inv_set_pc) (simp add: ok)
  ultimately show ?thesis
    by (simp add: acquire_def)
qed

lemma page_inv_fresh: "page_inv (fresh_loop K urls)"
  by (simp add: page_inv_def fresh_loop_def list_all_iff page_ok_def linked_def comp_def)

lemma page_inv_start_prefix:
  "n \<le> length urls \<Longrightarrow> page_inv (fold acquire [0..<n] (fresh_loop K urls))"
proof (induction n)
  case 0
  show ?case by (simp add: page_inv_fresh)
next
  case (Suc n)
  let ?st = "fold acquire [0..<n] (fresh_loop K urls)"
  from Suc have inv: "page_inv ?st" and n: "n < length urls"
    by simp_all
  from start_prefix [of n urls K] n
  have "started_upto n ?st" "length (coros ?st) = length urls"
    by simp_all
  with n have "at (coros ?st ! n) = Created"
    by (simp add: started_upto_def)
  with inv have "page_inv (acquire n ?st)"
    by (intro page_inv_acquire)
  then show ?case by simp
qed

lemma page_inv_run: "page_inv (run_bounded w K urls evs)"
  unfolding run_bounded_def
  using page_inv_start_prefix [of "length urls" urls K]
  by (intro page_inv_foldl [of _ K] start_props) (simp add: start_def)

section \<open>The scheduler\<close>

lemmas run_defs =
  run_bounded_def start_def fresh_loop_def acquire_def set_pc_def step_def resolve_def
  reject_def raise_in_def release_def gather_result_def Let_def upt_rec

lemma listing_world_simps [simp]:
  "session_get (listing_world links) url = Inr url"
  "html_parser (listing_world links) content = Inr (echo_doc links content)"
  "rendered (listing_world links) url = url"
  "urljoin (listing_world links) base url =
     (if url = ustr ''//['' then Inl (ValueError ''Invalid IPv6 URL'') else Inr (base @ url))"
  by (simp_all add: listing_world_def)

lemma listing_world_parses [simp]: "parses (listing_world links) url"
  by (simp add: parses_def)

lemma listing_world_item [simp]:
  "item_of (listing_world links) url = Inr (extract_item (echo_doc links url))"
  by (simp add: item_of_def)

lemma settled_step: "gather_result st \<noteq> None \<Longrightarrow> step w st ev = st"
  by (simp add: step_def)

lemma settled_foldl: "gather_result st \<noteq> None \<Longrightarrow> foldl (step w) st evs = st"
  by (induction evs) (simp_all add: settled_step)

lemma run_append:
  "run_bounded w K urls (evs @ evs') = foldl (step w) (run_bounded w K urls evs) evs'"
  by (simp add: run_bounded_def)

lemma run_in_order:
  "gather_result (run_bounded w K urls evs) = Some (Inr items) \<Longrightarrow>
     map (item_of w) urls = map Inr items"
  using data_inv_run by (rule returned_items_in_order)

lemma run_in_order_nth:
  assumes "gather_result (run_bounded w K urls evs) = Some (Inr items)"
  shows "length items = length urls \<and> (\<forall>i < length urls. item_of w (urls ! i) = Inr (items ! i))"
proof -
  from assms have m: "map (item_of w) urls = map Inr items"
    by (rule run_in_order)
  then have len: "length items = length urls"
    by (metis length_map)
  have "item_of w (urls ! i) = Inr (items ! i)" if "i < length urls" for i
    using that m len by (metis nth_map)
  with len show ?thesis
    by blast
qed

text \<open>
  C1. Order preservation. With a limit \<open>K \<ge> 1\<close>, whatever the order in which the awaited
  calls of the tasks complete (the schedule \<open>evs\<close>), a result list returned by \<open>gather\<close>
  has one element per input URL, and its element at position \<open>i\<close> is the \<open>MenuItem\<close>
  extracted from the page of the URL at position \<open>i\<close>. And the scheduler can run to
  completion when the parser accepts the page of every URL.
\<close>

theorem results_follow_input_order:
  assumes "1 \<le> K"
  shows "((\<forall>url \<in> set urls. parses w url) \<longrightarrow>
            (\<exists>evs items. gather_result (run_bounded w K urls evs) = Some (Inr items))) \<and>
         (\<forall>evs items. gather_result (run_bounded w K urls evs) = Some (Inr items) \<longrightarrow>
            length items = length urls \<and>
            (\<forall>i < length urls. item_of w (urls ! i) = Inr (items ! i)))"
  using run_can_finish [OF assms, of urls w] run_in_order_nth [of w K urls] by blast

theorem results_follow_input_order_witness:
  "gather_result (run_bounded (listing_world []) 2 [ustr ''/a'', ustr ''/b'']
     [Resolve 1, Resolve 1, Resolve 1, Resolve 1, Resolve 0, Resolve 0, Resolve 0, Resolve 0])
     = Some (Inr [extract_item (echo_doc [] (ustr ''/a'')), extract_item (echo_doc [] (ustr ''/b''))]) \<and>
   item_of (listing_world []) ([ustr ''/a'', ustr ''/b''] ! 1)
     = Inr ([extract_item (echo_doc [] (ustr ''/a'')), extract_item (echo_doc [] (ustr ''/b''))] ! 1) \<and>
   (\<exists>evs items. gather_result (run_bounded (listing_world []) 2 [ustr ''/a'', ustr ''/b''] evs)
      = Some (Inr items))"
proof -
  have r: "gather_result (run_bounded (listing_world []) 2 [ustr ''/a'', ustr ''/b'']
     [Resolve 1, Resolve 1, Resolve 1, Resolve 1, Resolve 0, Resolve 0, Resolve 0, Resolve 0])
     = Some (Inr [extract_item (echo_doc [] (ustr ''/a'')), extract_item (echo_doc [] (ustr ''/b''))])"
    by (simp add: run_defs)
  have k: "1 \<le> (2::nat)"
    by simp
  have p: "\<forall>url \<in> set [ustr ''/a'', ustr ''/b'']. parses (listing_world []) url"
    by simp
  from results_follow_input_order [OF k, of "[ustr ''/a'', ustr ''/b'']" "listing_world []"] r p
  show ?thesis
    by (metis length_Cons list.size(3) lessI One_nat_def)
qed

text \<open>
  C8. Degenerate limit. For a limit \<open>K\<close> of at least the number of URLs and a smaller
  valid limit \<open>K'\<close>, any result list returned under \<open>K\<close> equals any result list returned
  under \<open>K'\<close>, whatever the two schedules: the limit changes the interleaving only. And
  both can run to completion when the parser accepts the page of every URL.
\<close>

theorem limit_does_not_change_output:
  assumes "length urls \<le> K" and "1 \<le> K'" and "K' \<le> length urls"
  shows "((\<forall>url \<in> set urls. parses w url) \<longrightarrow>
            (\<exists>evs items. gather_result (run_bounded w K urls evs) = Some (Inr items)) \<and>
            (\<exists>evs items. gather_result (run_bounded w K' urls evs) = Some (Inr items))) \<and>
         (\<forall>evs evs' items items'.
            gather_result (run_bounded w K urls evs) = Some (Inr items) \<and>
            gather_result (run_bounded w K' urls evs') = Some (Inr items') \<longrightarrow>
            items = items')"
proof -
  from assms have k: "1 \<le> K" by simp
  have "items = items'"
    if "gather_result (run_bounded w K urls evs) = Some (Inr items)"
      and "gather_result (run_bounded w K' urls evs') = Some (Inr items')"
    for evs evs' items items'
  proof -
    from that have "map Inr items = (map Inr items' :: (error + MenuItem) list)"
      using run_in_order [of w K urls evs items] run_in_order [of w K' urls evs' items']
      by simp
    then show ?thesis
      by (simp add: inj_map_eq_map)
  qed
  with run_can_finish [OF k, of urls w] run_can_finish [OF assms(2), of urls w] show ?thesis
    by blast
qed

theorem limit_does_not_change_output_witness:
  "gather_result (run_bounded (listing_world []) 2 [ustr ''/a'', ustr ''/b'']
     [Resolve 1, Resolve 0, Resolve 1, Resolve 0, Resolve 1, Resolve 0, Resolve 1, Resolve 0])
   = gather_result (run_bounded (listing_world []) 1 [ustr ''/a'', ustr ''/b'']
     [Resolve 0, Resolve 0, Resolve 0, Resolve 0, Resolve 1, Resolve 1, Resolve 1, Resolve 1]) \<and>
   gather_result (run_bounded (listing_world []) 1 [ustr ''/a'', ustr ''/b'']
     [Resolve 0, Resolve 0, Resolve 0, Resolve 0, Resolve 1, Resolve 1, Resolve 1, Resolve 1])
   = Some (Inr [extract_item (echo_doc [] (ustr ''/a'')), extract_item (echo_doc [] (ustr ''/b''))]) \<and>
   (\<exists>evs items. gather_result (run_bounded (listing_world []) 2 [ustr ''/a'', ustr ''/b''] evs)
      = Some (Inr items))"
proof -
  let ?w = "listing_world []"
  let ?urls = "[ustr ''/a'', ustr ''/b'']"
  let ?items = "[extract_item (echo_doc [] (ustr ''/a'')), extract_item (echo_doc [] (ustr ''/b''))]"
  let ?e2 = "[Resolve 1, Resolve 0, Resolve 1, Resolve 0, Resolve 1, Resolve 0, Resolve 1, Resolve 0]"
  let ?e1 = "[Resolve 0, Resolve 0, Resolve 0, Resolve 0, Resolve 1, Resolve 1, Resolve 1, Resolve 1]"
  have r1: "gather_result (run_bounded ?w 1 ?urls ?e1) = Some (Inr ?items)"
    by (simp add: run_defs)
  have "\<exists>items. gather_result (run_bounded ?w 2 ?urls ?e2) = Some (Inr items)"
    by (simp add: run_defs)
  then obtain items2 where r2: "gather_result (run_bounded ?w 2 ?urls ?e2) = Some (Inr items2)" ..
  have h: "length ?urls \<le> (2::nat)" "1 \<le> (1::nat)" "1 \<le> length ?urls"
    by simp_all
  have p: "\<forall>url \<in> set ?urls. parses ?w url"
    by simp
  from limit_does_not_change_output [OF h, of ?w] r1 r2 have "items2 = ?items"
    by blast
  moreover from limit_does_not_change_output [OF h, of ?w] p
  have "\<exists>evs items. gather_result (run_bounded ?w 2 ?urls evs) = Some (Inr items)"
    by blast
  ultimately show ?thesis
    using r1 r2 by simp
qed

section \<open>The concurrency bound and failures\<close>

lemma holders_le: "sem_inv K st \<Longrightarrow> length (filter (\<lambda>c. holding (at c)) (coros st)) \<le> K"
proof -
  assume "sem_inv K st"
  then have "sem_value st + length (filter holding (map at (coros st))) = K"
    by (simp add: sem_inv_def sem_ok_def)
  then have "length (filter holding (map at (coros st))) \<le> K"
    by linarith
  then show ?thesis
    by (simp add: filter_map comp_def)
qed

text \<open>
  C4. Concurrency bound. A task is inside the \<open>async with semaphore\<close> block, past
  \<open>acquire\<close> and before \<open>release\<close>, exactly while it is suspended in one of the four
  browser calls; only such a task can have an open page. In the state after any schedule,
  and in the state after \<open>gather\<close> has started any number \<open>n\<close> of the tasks, at most \<open>K\<close>
  tasks are inside the block. Every state a run goes through is the state after a prefix
  of its schedule, so this bounds every instant of the run.
\<close>

theorem at_most_K_inside_semaphore:
  "length (filter (\<lambda>c. holding (at c)) (coros (run_bounded w K urls evs))) \<le> K \<and>
   (n \<le> length urls \<longrightarrow>
      length (filter (\<lambda>c. holding (at c)) (coros (fold acquire [0..<n] (fresh_loop K urls)))) \<le> K)"
  using holders_le [OF sem_inv_run] start_prefix [of n urls K] by (simp add: holders_le)

theorem at_most_K_inside_semaphore_witness:
  "length (filter (\<lambda>c. holding (at c)) (coros (run_bounded (listing_world []) 1
      [ustr ''/a'', ustr ''/b''] [Resolve 0, Resolve 0, Resolve 0, Resolve 0, Resolve 1]))) \<le> 1 \<and>
   (1::nat) \<le> length [ustr ''/a'', ustr ''/b''] \<and>
   length (filter (\<lambda>c. holding (at c)) (coros (fold acquire [0..<1]
      (fresh_loop 1 [ustr ''/a'', ustr ''/b''])))) \<le> 1"
  using at_most_K_inside_semaphore [of "listing_world []" 1 "[ustr ''/a'', ustr ''/b'']"
      "[Resolve 0, Resolve 0, Resolve 0, Resolve 0, Resolve 1]" 1]
  by simp

lemma release_other:
  assumes "sem_inv k st" "i < length (coros st)" "at (coros st ! i) \<noteq> AcquireWait"
  shows "at (coros (release st) ! i) = at (coros st ! i)"
proof (cases "sem_waiters st")
  case Nil
  then show ?thesis
    by (simp add: release_def)
next
  case (Cons j ws)
  from sem_inv_head_waiter [OF assms(1) Cons] assms(3) have "j \<noteq> i"
    by auto
  with Cons assms(2) show ?thesis
    by (simp add: release_def set_pc_def)
qed

lemma raise_in_raises:
  assumes sem: "sem_inv K st" and i: "i < length (coros st)" and h: "holding (at (coros st ! i))"
    and g: "gather_result st = None"
  shows "gather_result (raise_in i e st) = Some (Inl e)" "at (coros (raise_in i e st) ! i) = Raised e"
proof -
  let ?st = "set_pc i (Raised e) st"
  from g have exc: "gather_exc st = None"
    by (auto simp: gather_result_def split: option.splits)
  have "gather_exc (release ?st) = None"
    using exc by (simp add: release_def split: list.splits)
  then show "gather_result (raise_in i e st) = Some (Inl e)"
    by (simp add: raise_in_def Let_def gather_result_def)
  from sem i h have "\<exists>k. sem_inv k ?st"
    by (intro sem_inv_after_leave) simp_all
  then obtain k where k: "sem_inv k ?st" ..
  have "at (coros ?st ! i) = Raised e"
    using i by (simp add: set_pc_def)
  with release_other [OF k, of i] i have "at (coros (release ?st) ! i) = Raised e"
    by simp
  then show "at (coros (raise_in i e st) ! i) = Raised e"
    by (simp add: raise_in_def Let_def)
qed

lemma reject_raises:
  assumes "sem_inv K st" "i < length (coros st)" "holding (at (coros st ! i))"
    "gather_result st = None"
  shows "gather_result (reject i e st) = Some (Inl e)" "at (coros (reject i e st) ! i) = Raised e"
  using raise_in_raises [OF assms, of e] assms(3) by (simp_all add: reject_def)

lemma parser_failure_raises:
  assumes "sem_inv K st" "i < length (coros st)" "at (coros st ! i) = AwaitContent"
    "gather_result st = None" "html_parser w (rendered w (item_link (coros st ! i))) = Inl e"
  shows "gather_result (step w st (Resolve i)) = Some (Inl e)"
proof -
  from assms(3) have "holding (at (coros st ! i))"
    by simp
  from raise_in_raises(1) [OF assms(1,2) this assms(4), of e] assms show ?thesis
    by (simp add: step_def resolve_def Let_def)
qed

lemma fetch_menu_gather:
  assumes "\<And>e. fst (fetch_menu w K evs) \<noteq> Some (Inl e)"
  shows "\<exists>links urls.
           listing_links w = Inr links \<and> 0 \<le> K \<and> item_links w links = Inr urls \<and>
           (\<forall>evs'. fetch_menu w K evs' =
              (gather_result (run_bounded w (nat K) urls evs'), run_bounded w (nat K) urls evs'))"
proof (cases "listing_links w")
  case (Inl e)
  then have "fst (fetch_menu w K evs) = Some (Inl e)"
    by (simp add: fetch_menu_def)
  with assms show ?thesis by blast
next
  case (Inr links)
  note c = this
  show ?thesis
  proof (cases "K < 0")
    case True
    with c have "fst (fetch_menu w K evs) = Some (Inl (ValueError ''Semaphore initial value must be >= 0''))"
      by (simp add: fetch_menu_def)
    with assms show ?thesis by blast
  next
    case False
    note k = this
    show ?thesis
    proof (cases "item_links w links")
      case (Inl e)
      with c k have "fst (fetch_menu w K evs) = Some (Inl e)"
        by (simp add: fetch_menu_def)
      with assms show ?thesis by blast
    next
      case (Inr urls)
      with c k show ?thesis
        by (simp add: fetch_menu_def Let_def)
    qed
  qed
qed

lemma listing_world_links [simp]: "listing_links (listing_world links) = Inr links"
  by (simp add: listing_links_def echo_doc_def menu_path_def ustr_def)

text \<open>
  C3. No recovery per item. While \<open>fetch_menu\<close> is suspended in \<open>gather\<close>, let the call
  that task \<open>i\<close> awaits (\<open>page.goto\<close> among them) raise \<open>e\<close>. Then the task ends with
  \<open>e\<close>, uncaught, and \<open>fetch_menu\<close> raises \<open>e\<close> to its caller: the outcome is this
  exception whatever events follow, and no list of items is returned.
\<close>

theorem awaited_failure_aborts_fetch_menu:
  assumes "fst (fetch_menu w K evs) = None"
    and "i < length (coros (snd (fetch_menu w K evs)))"
    and "holding (at (coros (snd (fetch_menu w K evs)) ! i))"
  shows "fst (fetch_menu w K (evs @ Reject i e # evs')) = Some (Inl e) \<and>
         at (coros (snd (fetch_menu w K (evs @ Reject i e # evs'))) ! i) = Raised e"
proof -
  from assms(1) have "\<And>e. fst (fetch_menu w K evs) \<noteq> Some (Inl e)"
    by simp
  from fetch_menu_gather [OF this] obtain urls where
    f: "\<And>evs'. fetch_menu w K evs' =
          (gather_result (run_bounded w (nat K) urls evs'), run_bounded w (nat K) urls evs')"
    by blast
  let ?st = "run_bounded w (nat K) urls evs"
  from assms f have g: "gather_result ?st = None" and i: "i < length (coros ?st)"
    and h: "holding (at (coros ?st ! i))"
    by simp_all
  have sem: "sem_inv (nat K) ?st"
    by (rule sem_inv_run)
  have s: "step w ?st (Reject i e) = reject i e ?st"
    using g i by (simp add: step_def)
  from reject_raises [OF sem i h g, of e]
  have r: "gather_result (reject i e ?st) = Some (Inl e)" "at (coros (reject i e ?st) ! i) = Raised e"
    by simp_all
  then have "foldl (step w) (reject i e ?st) evs' = reject i e ?st"
    by (intro settled_foldl) simp
  with s have "run_bounded w (nat K) urls (evs @ Reject i e # evs') = reject i e ?st"
    by (simp add: run_append)
  with r f show ?thesis
    by simp
qed

theorem awaited_failure_aborts_fetch_menu_witness:
  "fst (fetch_menu (listing_world [anchor ''/a'', anchor ''/b'']) 2 [Resolve 0, Resolve 1]) = None \<and>
   at (coros (snd (fetch_menu (listing_world [anchor ''/a'', anchor ''/b'']) 2 [Resolve 0, Resolve 1])) ! 1)
     = AwaitGoto \<and>
   fst (fetch_menu (listing_world [anchor ''/a'', anchor ''/b'']) 2
     ([Resolve 0, Resolve 1] @ Reject 1 (PlaywrightError (ustr ''net::ERR_ABORTED'')) # [Resolve 0, Resolve 0, Resolve 0]))
     = Some (Inl (PlaywrightError (ustr ''net::ERR_ABORTED'')))"
proof -
  let ?w = "listing_world [anchor ''/a'', anchor ''/b'']"
  let ?evs = "[Resolve 0, Resolve 1]"
  have st: "fst (fetch_menu ?w 2 ?evs) = None"
    "length (coros (snd (fetch_menu ?w 2 ?evs))) = 2"
    "at (coros (snd (fetch_menu ?w 2 ?evs)) ! 1) = AwaitGoto"
    by (simp_all add: fetch_menu_def link_url_def anchor_def ustr_def run_defs)
  then have h: "1 < length (coros (snd (fetch_menu ?w 2 ?evs)))"
    "holding (at (coros (snd (fetch_menu ?w 2 ?evs)) ! 1))"
    by simp_all
  from awaited_failure_aborts_fetch_menu [OF st(1) h,
      of "PlaywrightError (ustr ''net::ERR_ABORTED'')" "[Resolve 0, Resolve 0, Resolve 0]"] st
  show ?thesis
    by simp
qed

text \<open>
  C2, amended. The page a task has acquired is closed on the exit path on which
  \<open>_parse_item\<close> returns its \<open>MenuItem\<close>: in every state of every run, a task that has
  returned has a page, and this page is no longer open.
\<close>

theorem page_closed_when_returned:
  assumes "i < length urls"
    and "at (coros (run_bounded w K urls evs) ! i) = Returned item"
  shows "\<exists>p. page (coros (run_bounded w K urls evs) ! i) = Some p \<and>
             p \<notin> open_pages (run_bounded w K urls evs)"
proof -
  let ?st = "run_bounded w K urls evs"
  from assms(1) have "i < length (coros ?st)"
    by simp
  with page_inv_run have "page_ok (pages_created ?st) (open_pages ?st) (coros ?st ! i)"
    by (rule page_inv_nth)
  with assms(2) show ?thesis
    by (auto simp: page_ok_def)
qed

theorem page_closed_when_returned_witness:
  "at (coros (run_bounded (listing_world []) 1 [ustr ''/a'']
       [Resolve 0, Resolve 0, Resolve 0, Resolve 0]) ! 0)
     = Returned (extract_item (echo_doc [] (ustr ''/a''))) \<and>
   (\<exists>p. page (coros (run_bounded (listing_world []) 1 [ustr ''/a'']
       [Resolve 0, Resolve 0, Resolve 0, Resolve 0]) ! 0) = Some p \<and>
      p \<notin> open_pages (run_bounded (listing_world []) 1 [ustr ''/a'']
       [Resolve 0, Resolve 0, Resolve 0, Resolve 0]))"
proof -
  have r: "at (coros (run_bounded (listing_world []) 1 [ustr ''/a'']
       [Resolve 0, Resolve 0, Resolve 0, Resolve 0]) ! 0)
     = Returned (extract_item (echo_doc [] (ustr ''/a'')))"
    by (simp add: run_defs)
  have i: "0 < length [ustr ''/a'']"
    by simp
  from page_closed_when_returned [OF i r] r show ?thesis
    by blast
qed

text \<open>
  The exit by exception is different. One URL, limit 1: \<open>new_page()\<close> succeeds and
  \<open>page.goto\<close> raises. The task has ended with the exception, the semaphore slot is free
  again, and page 0 is still open: nothing closes the page on this path.
\<close>

theorem page_left_open_when_goto_raises:
  "at (coros (run_bounded (listing_world []) 1 [ustr ''/a'']
       [Resolve 0, Reject 0 (PlaywrightError (ustr ''net::ERR_ABORTED''))]) ! 0)
     = Raised (PlaywrightError (ustr ''net::ERR_ABORTED'')) \<and>
   page (coros (run_bounded (listing_world []) 1 [ustr ''/a'']
       [Resolve 0, Reject 0 (PlaywrightError (ustr ''net::ERR_ABORTED''))]) ! 0) = Some 0 \<and>
   0 \<in> open_pages (run_bounded (listing_world []) 1 [ustr ''/a'']
       [Resolve 0, Reject 0 (PlaywrightError (ustr ''net::ERR_ABORTED''))]) \<and>
   sem_value (run_bounded (listing_world []) 1 [ustr ''/a'']
       [Resolve 0, Reject 0 (PlaywrightError (ustr ''net::ERR_ABORTED''))]) = 1"
  by (simp add: run_defs)

section \<open>Extraction inside the task\<close>

lemma those_None_intro: "None \<in> set xs \<Longrightarrow> those xs = None"
  by (induction xs) (auto split: option.splits)

lemma extract_item_empty:
  "css_select doc selector = [] \<Longrightarrow>
     take_string_opt doc selector = [] \<and> take_hidden doc selector = []"
  by (simp add: take_string_opt_none take_hidden_none)

text \<open>
  C7. The field extractor has no failing path. Each of the ten fields of the \<open>MenuItem\<close>
  built from a parsed document whose selector matches nothing is the empty string. And
  when the page content has arrived for a task and the parser has accepted it, then
  whatever the parsed document is, the task goes on to \<open>page.close()\<close> with the
  \<open>MenuItem\<close> extracted from it, and no exception has reached \<open>gather\<close>: on this step
  only the parser can raise, never the extraction.
\<close>

theorem extraction_never_fails:
  "(\<forall>(field, selector) \<in> set [(name, sel_name), (description, sel_description),
       (calories, sel_calories), (fats, sel_fats), (carbs, sel_carbs), (proteins, sel_proteins),
       (unsaturated_fats, sel_unsaturated_fats), (sugar, sel_sugar), (salt, sel_salt),
       (portion, sel_portion)].
      css_select doc selector = [] \<longrightarrow> field (extract_item doc) = []) \<and>
   (i < length (coros st) \<and> gather_result st = None \<and> at (coros st ! i) = AwaitContent \<and>
    html_parser w (rendered w (item_link (coros st ! i))) = Inr doc \<longrightarrow>
      at (coros (step w st (Resolve i)) ! i) = AwaitClose (extract_item doc) \<and>
      gather_result (step w st (Resolve i)) = None)"
proof -
  have "at (coros (step w st (Resolve i)) ! i) = AwaitClose (extract_item doc) \<and>
      gather_result (step w st (Resolve i)) = None"
    if "i < length (coros st)" "gather_result st = None" "at (coros st ! i) = AwaitContent"
      "html_parser w (rendered w (item_link (coros st ! i))) = Inr doc"
  proof -
    let ?p = "AwaitClose (extract_item doc)"
    from that have s: "step w st (Resolve i) = set_pc i ?p st"
      by (simp add: step_def resolve_def Let_def)
    from that(2) have exc: "gather_exc st = None"
      by (auto simp: gather_result_def split: option.splits)
    have "returned_item (at (coros (set_pc i ?p st) ! i)) = None"
      using that(1) by (simp add: set_pc_def)
    then have "None \<in> set (map (\<lambda>c. returned_item (at c)) (coros (set_pc i ?p st)))"
      using that(1) by (metis (no_types, lifting) length_map nth_map nth_mem set_pc_fields(8))
    then have "those (map (\<lambda>c. returned_item (at c)) (coros (set_pc i ?p st))) = None"
      by (rule those_None_intro)
    with exc s that(1) show ?thesis
      by (simp add: gather_result_def set_pc_def)
  qed
  then show ?thesis
    using extract_item_empty [of doc] by (simp add: extract_item_def)
qed

theorem extraction_never_fails_witness:
  "name (extract_item \<lparr> find_all_class = (\<lambda>c. []), css_select = (\<lambda>s. []) \<rparr>) = [] \<and>
   portion (extract_item \<lparr> find_all_class = (\<lambda>c. []), css_select = (\<lambda>s. []) \<rparr>) = [] \<and>
   at (coros (run_bounded (listing_world []) 1 [ustr ''/a''] [Resolve 0, Resolve 0]) ! 0) = AwaitContent \<and>
   at (coros (step (listing_world [])
        (run_bounded (listing_world []) 1 [ustr ''/a''] [Resolve 0, Resolve 0]) (Resolve 0)) ! 0)
     = AwaitClose (extract_item (echo_doc [] (ustr ''/a''))) \<and>
   description (extract_item (echo_doc [] (ustr ''/a''))) = []"
proof -
  let ?st = "run_bounded (listing_world []) 1 [ustr ''/a''] [Resolve 0, Resolve 0]"
  have st: "0 < length (coros ?st)" "gather_result ?st = None" "at (coros ?st ! 0) = AwaitContent"
    "html_parser (listing_world []) (rendered (listing_world []) (item_link (coros ?st ! 0)))
       = Inr (echo_doc [] (ustr ''/a''))"
    by (simp_all add: run_defs)
  have d: "css_select (echo_doc [] (ustr ''/a'')) sel_description = []"
    by (simp add: echo_doc_def sel_description_def sel_name_def)
  from extraction_never_fails [of "\<lparr> find_all_class = (\<lambda>c. []), css_select = (\<lambda>s. []) \<rparr>"
      0 ?st "listing_world []"]
    extraction_never_fails [of "echo_doc [] (ustr ''/a'')" 0 ?st "listing_world []"] st d
  show ?thesis
    by simp
qed

section \<open>The crawl of the listing page\<close>

lemma item_links_urls:
  "item_links w links = Inr urls \<Longrightarrow> map (link_url w) links = map Inr urls"
  by (induction links arbitrary: urls) (auto split: sum.splits)

lemma link_urls_hrefs:
  "map (link_url w) links = map Inr urls \<Longrightarrow>
     \<exists>hrefs. map (\<lambda>link_item. attrs link_item ''href'') links = map Some hrefs \<and>
             map (urljoin w BASE_URL) hrefs = map Inr urls"
proof (induction links arbitrary: urls)
  case Nil
  then show ?case by simp
next
  case (Cons t links)
  from Cons.prems obtain u us where urls: "urls = u # us" and t: "link_url w t = Inr u"
    and rest: "map (link_url w) links = map Inr us"
    by (cases urls) auto
  from t obtain href where href: "attrs t ''href'' = Some href" "urljoin w BASE_URL href = Inr u"
    by (auto simp: link_url_def split: option.splits)
  from Cons.IH [OF rest] obtain hrefs where
    "map (\<lambda>link_item. attrs link_item ''href'') links = map Some hrefs"
    "map (urljoin w BASE_URL) hrefs = map Inr us"
    by blast
  with href urls have
    "map (\<lambda>link_item. attrs link_item ''href'') (t # links) = map Some (href # hrefs) \<and>
     map (urljoin w BASE_URL) (href # hrefs) = map Inr urls"
    by simp
  then show ?case by blast
qed

lemma item_links_all_accepted:
  "\<forall>link_item \<in> set links. \<exists>url. link_url w link_item = Inr url \<and> P url \<Longrightarrow>
     \<exists>urls. item_links w links = Inr urls \<and> (\<forall>url \<in> set urls. P url)"
  by (induction links) auto

lemma item_links_missing:
  assumes "\<exists>link_item \<in> set links. attrs link_item ''href'' = None"
  shows "\<exists>e. item_links w links = Inl e"
    and "\<forall>link_item \<in> set (takeWhile (\<lambda>t. attrs t ''href'' \<noteq> None) links).
            \<exists>url. link_url w link_item = Inr url \<Longrightarrow>
         item_links w links = Inl (KeyError ''href'')"
  using assms
proof (induction links)
  case Nil
  {
    case 1
    then show ?case by simp
  next
    case 2
    then show ?case by simp
  }
next
  case (Cons t links)
  {
    case 1
    show ?case
    proof (cases "link_url w t")
      case (Inl e)
      then show ?thesis by simp
    next
      case (Inr url)
      then have "attrs t ''href'' \<noteq> None"
        by (auto simp: link_url_def split: option.splits)
      with 1 have "\<exists>link_item \<in> set links. attrs link_item ''href'' = None"
        by auto
      from Cons.IH(1) [OF this] Inr show ?thesis
        by auto
    qed
  next
    case 2
    show ?case
    proof (cases "attrs t ''href''")
      case None
      then show ?thesis by (simp add: link_url_def)
    next
      case (Some href)
      with 2 obtain url where url: "link_url w t = Inr url"
        by auto
      from Some 2 have rest: "\<exists>link_item \<in> set links. attrs link_item ''href'' = None"
        and acc: "\<forall>link_item \<in> set (takeWhile (\<lambda>t. attrs t ''href'' \<noteq> None) links).
            \<exists>url. link_url w link_item = Inr url"
        by auto
      from Cons.IH(2) [OF acc rest] url show ?thesis
        by simp
    qed
  }
qed

lemma negative_limit_raises_ValueError:
  "listing_links w = Inr links \<Longrightarrow> K < 0 \<Longrightarrow>
     fst (fetch_menu w K evs) = Some (Inl (ValueError ''Semaphore initial value must be >= 0''))"
  by (simp add: fetch_menu_def)

text \<open>
  C9, amended. Missing href. When the listing page was fetched and parsed, the
  concurrency limit is a valid semaphore value, and some tag with the category-item-link
  class has no \<open>href\<close> attribute, \<open>fetch_menu\<close> raises while it builds the list of
  coroutines: under every schedule its outcome is an exception, no task exists, no page
  was created and no navigation was issued. The exception is \<open>KeyError('href')\<close> when
  \<open>urljoin\<close> accepts the \<open>href\<close> of every tag before the first one without \<open>href\<close>.
\<close>

theorem missing_href_raises_KeyError:
  assumes "listing_links w = Inr links"
    and "0 \<le> K"
    and "\<exists>link_item \<in> set links. attrs link_item ''href'' = None"
  shows "(\<exists>e. fst (fetch_menu w K evs) = Some (Inl e)) \<and>
         coros (snd (fetch_menu w K evs)) = [] \<and>
         pages_created (snd (fetch_menu w K evs)) = 0 \<and>
         gotos (snd (fetch_menu w K evs)) = [] \<and>
         ((\<forall>link_item \<in> set (takeWhile (\<lambda>t. attrs t ''href'' \<noteq> None) links).
              \<exists>url. link_url w link_item = Inr url) \<longrightarrow>
            fst (fetch_menu w K evs) = Some (Inl (KeyError ''href'')))"
proof -
  from item_links_missing(1) [OF assms(3)] obtain e where e: "item_links w links = Inl e"
    by blast
  with assms(1,2) have f: "fetch_menu w K evs = (Some (Inl e), fresh_loop 0 [])"
    by (simp add: fetch_menu_def)
  have "e = KeyError ''href''"
    if "\<forall>link_item \<in> set (takeWhile (\<lambda>t. attrs t ''href'' \<noteq> None) links).
          \<exists>url. link_url w link_item = Inr url"
    using item_links_missing(2) [OF assms(3) that] e by simp
  with f show ?thesis
    by (simp add: fresh_loop_def)
qed

theorem missing_href_raises_KeyError_witness:
  "fst (fetch_menu (listing_world [anchor ''/a'', \<lparr> attrs = Map.empty, tag_text = [] \<rparr>]) 2
     [Resolve 0, Resolve 0]) = Some (Inl (KeyError ''href'')) \<and>
   pages_created (snd (fetch_menu (listing_world [anchor ''/a'', \<lparr> attrs = Map.empty, tag_text = [] \<rparr>]) 2
     [Resolve 0, Resolve 0])) = 0"
proof -
  let ?links = "[anchor ''/a'', \<lparr> attrs = Map.empty, tag_text = [] \<rparr>]"
  let ?w = "listing_world ?links"
  have 1: "listing_links ?w = Inr ?links"
    by simp
  have 2: "0 \<le> (2::int)"
    by simp
  have 3: "\<exists>link_item \<in> set ?links. attrs link_item ''href'' = None"
    by simp
  have 4: "\<forall>link_item \<in> set (takeWhile (\<lambda>t. attrs t ''href'' \<noteq> None) ?links).
              \<exists>url. link_url ?w link_item = Inr url"
    by (simp add: anchor_def link_url_def ustr_def)
  from missing_href_raises_KeyError [OF 1 2 3, of "[Resolve 0, Resolve 0]"] 4 show ?thesis
    by blast
qed

text \<open>
  The exception is another one when \<open>urljoin\<close> raises first. The listing has two link
  tags, the first with \<open>href="//["\<close> and the second without \<open>href\<close>: the comprehension
  ends in the \<open>ValueError\<close> of \<open>urljoin\<close> on the first tag and never reaches the second.
\<close>

theorem invalid_href_raises_before_missing_href:
  "attrs \<lparr> attrs = Map.empty, tag_text = [] \<rparr> ''href'' = None \<and>
   listing_links (listing_world [anchor ''//['', \<lparr> attrs = Map.empty, tag_text = [] \<rparr>])
     = Inr [anchor ''//['', \<lparr> attrs = Map.empty, tag_text = [] \<rparr>] \<and>
   fst (fetch_menu (listing_world [anchor ''//['', \<lparr> attrs = Map.empty, tag_text = [] \<rparr>]) 1 [])
     = Some (Inl (ValueError ''Invalid IPv6 URL'')) \<and>
   fst (fetch_menu (listing_world [anchor ''//['', \<lparr> attrs = Map.empty, tag_text = [] \<rparr>]) 1 [])
     \<noteq> Some (Inl (KeyError ''href''))"
  by (simp add: fetch_menu_def link_url_def anchor_def)

lemma all_returned_linked:
  assumes inv: "page_inv st" and res: "gather_result st = Some (Inr items)"
  shows "linked (coros st) = map item_link (coros st)"
proof -
  have "page c \<noteq> None" if c: "c \<in> set (coros st)" for c
  proof -
    from gather_result_items [OF res]
    have m: "map (\<lambda>c. returned_item (at c)) (coros st) = map Some items" .
    from c have "returned_item (at c) \<in> set (map (\<lambda>c. returned_item (at c)) (coros st))"
      by simp
    with m have "returned_item (at c) \<in> set (map Some items)"
      by simp
    then have "returned_item (at c) \<noteq> None"
      by auto
    then have "has_page (at c)"
      by (cases "at c") simp_all
    moreover from inv c have "page_ok (pages_created st) (open_pages st) c"
      by (simp add: page_inv_def list_all_iff)
    ultimately show ?thesis
      by (simp add: page_ok_def)
  qed
  then show ?thesis
    by (simp add: linked_def)
qed

text \<open>
  C10. No deduplication. When \<open>fetch_menu\<close> returns a list, every link tag of the
  listing has an \<open>href\<close> that \<open>urljoin\<close> resolved, the list has exactly one \<open>MenuItem\<close> per
  link tag, in listing order, each extracted from the page of that tag's resolved URL,
  and \<open>page.goto\<close> was called once per link tag with its resolved URL, so that a URL
  occurring twice in the listing is fetched twice and gives two records. With a limit of
  at least 1, and every link tag having an \<open>href\<close> that \<open>urljoin\<close> resolves to a URL whose
  page the parser accepts, some schedule makes \<open>fetch_menu\<close> return.
\<close>

theorem one_item_per_link:
  assumes "listing_links w = Inr links"
  shows "(fst (fetch_menu w K evs) = Some (Inr items) \<longrightarrow>
           (\<exists>hrefs urls.
              map (\<lambda>link_item. attrs link_item ''href'') links = map Some hrefs \<and>
              map (urljoin w BASE_URL) hrefs = map Inr urls \<and>
              map (item_of w) urls = map Inr items \<and>
              mset (gotos (snd (fetch_menu w K evs))) = mset urls) \<and>
           length items = length links) \<and>
         (1 \<le> K \<and> (\<forall>link_item \<in> set links. \<exists>url. link_url w link_item = Inr url \<and> parses w url) \<longrightarrow>
           (\<exists>evs' items'. fst (fetch_menu w K evs') = Some (Inr items')))"
proof (intro conjI impI)
  assume r: "fst (fetch_menu w K evs) = Some (Inr items)"
  then have "\<And>e. fst (fetch_menu w K evs) \<noteq> Some (Inl e)"
    by simp
  from fetch_menu_gather [OF this] assms obtain urls where
    u: "item_links w links = Inr urls"
    and f: "\<And>evs'. fetch_menu w K evs' =
          (gather_result (run_bounded w (nat K) urls evs'), run_bounded w (nat K) urls evs')"
    by auto
  let ?st = "run_bounded w (nat K) urls evs"
  from r f have g: "gather_result ?st = Some (Inr items)"
    by simp
  then have items: "map (item_of w) urls = map Inr items"
    by (rule run_in_order)
  have "data_inv w urls ?st"
    by (rule data_inv_run)
  then have "map item_link (coros ?st) = urls"
    by (simp add: data_inv_def cs_ok_def)
  with all_returned_linked [OF page_inv_run g] page_inv_run [of w "nat K" urls evs]
  have gt: "mset (gotos ?st) = mset urls"
    by (simp add: page_inv_def)
  from link_urls_hrefs [OF item_links_urls [OF u]] obtain hrefs where
    h: "map (\<lambda>link_item. attrs link_item ''href'') links = map Some hrefs"
      "map (urljoin w BASE_URL) hrefs = map Inr urls"
    by blast
  from h items gt f
  show "\<exists>hrefs urls.
          map (\<lambda>link_item. attrs link_item ''href'') links = map Some hrefs \<and>
          map (urljoin w BASE_URL) hrefs = map Inr urls \<and>
          map (item_of w) urls = map Inr items \<and>
          mset (gotos (snd (fetch_menu w K evs))) = mset urls"
    by auto
  from h items show "length items = length links"
    by (metis length_map)
next
  assume a: "1 \<le> K \<and> (\<forall>link_item \<in> set links. \<exists>url. link_url w link_item = Inr url \<and> parses w url)"
  then obtain urls where u: "item_links w links = Inr urls" and p: "\<forall>url \<in> set urls. parses w url"
    using item_links_all_accepted [of links w "parses w"] by blast
  from a have "1 \<le> nat K"
    by linarith
  from run_can_finish [OF this p] obtain evs' items' where
    "gather_result (run_bounded w (nat K) urls evs') = Some (Inr items')"
    by blast
  with assms u a have "fst (fetch_menu w K evs') = Some (Inr items')"
    by (simp add: fetch_menu_def Let_def)
  then show "\<exists>evs' items'. fst (fetch_menu w K evs') = Some (Inr items')"
    by blast
qed

theorem one_item_per_link_witness:
  "fst (fetch_menu (listing_world [anchor ''/a'', anchor ''/a'']) 1
     [Resolve 0, Resolve 0, Resolve 0, Resolve 0, Resolve 1, Resolve 1, Resolve 1, Resolve 1])
     = Some (Inr [extract_item (echo_doc [anchor ''/a'', anchor ''/a''] (BASE_URL @ ustr ''/a'')),
                  extract_item (echo_doc [anchor ''/a'', anchor ''/a''] (BASE_URL @ ustr ''/a''))]) \<and>
   gotos (snd (fetch_menu (listing_world [anchor ''/a'', anchor ''/a'']) 1
     [Resolve 0, Resolve 0, Resolve 0, Resolve 0, Resolve 1, Resolve 1, Resolve 1, Resolve 1]))
     = [BASE_URL @ ustr ''/a'', BASE_URL @ ustr ''/a''] \<and>
   length [extract_item (echo_doc [anchor ''/a'', anchor ''/a''] (BASE_URL @ ustr ''/a'')),
           extract_item (echo_doc [anchor ''/a'', anchor ''/a''] (BASE_URL @ ustr ''/a''))]
     = length [anchor ''/a'', anchor ''/a''] \<and>
   (\<exists>evs' items'. fst (fetch_menu (listing_world [anchor ''/a'', anchor ''/a'']) 1 evs')
      = Some (Inr items'))"
proof -
  let ?links = "[anchor ''/a'', anchor ''/a'']"
  let ?w = "listing_world ?links"
  let ?evs = "[Resolve 0, Resolve 0, Resolve 0, Resolve 0, Resolve 1, Resolve 1, Resolve 1, Resolve 1]"
  let ?items = "[extract_item (echo_doc ?links (BASE_URL @ ustr ''/a'')),
                 extract_item (echo_doc ?links (BASE_URL @ ustr ''/a''))]"
  have 1: "listing_links ?w = Inr ?links"
    by simp
  have lu: "link_url ?w (anchor ''/a'') = Inr (BASE_URL @ ustr ''/a'')"
    by (simp add: link_url_def anchor_def ustr_def)
  then have links: "item_links ?w ?links = Inr [BASE_URL @ ustr ''/a'', BASE_URL @ ustr ''/a'']"
    by simp
  have run: "gather_result (run_bounded ?w 1 [BASE_URL @ ustr ''/a'', BASE_URL @ ustr ''/a''] ?evs)
      = Some (Inr ?items)"
    "gotos (run_bounded ?w 1 [BASE_URL @ ustr ''/a'', BASE_URL @ ustr ''/a''] ?evs)
      = [BASE_URL @ ustr ''/a'', BASE_URL @ ustr ''/a'']"
    by (simp_all add: run_defs)
  with links have f: "fst (fetch_menu ?w 1 ?evs) = Some (Inr ?items)"
    "gotos (snd (fetch_menu ?w 1 ?evs)) = [BASE_URL @ ustr ''/a'', BASE_URL @ ustr ''/a'']"
    by (simp_all add: fetch_menu_def Let_def)
  have g: "(1::int) \<le> 1 \<and>
      (\<forall>link_item \<in> set ?links. \<exists>url. link_url ?w link_item = Inr url \<and> parses ?w url)"
    using lu by simp
  from one_item_per_link [OF 1, of 1 ?evs ?items] f g show ?thesis
    by blast
qed

end
